theory Spec2Isabelle
  imports Main "HOL-Library.AList"
begin

section \<open>JavaScript containers\<close>

text \<open>
  A JavaScript \<^verbatim>\<open>Map\<close> iterates its keys in insertion order, \<^verbatim>\<open>set\<close> on a key that is
  present keeps the key's position, and \<^verbatim>\<open>delete\<close> removes the entry. It is modelled as an
  association list read with \<open>map_of\<close>. A JavaScript \<^verbatim>\<open>Set\<close> iterates in insertion
  order and \<^verbatim>\<open>add\<close> of a member changes nothing: it is modelled as a list.
\<close>

type_synonym ('k, 'v) jsmap = "('k \<times> 'v) list"
type_synonym 'a jsset = "'a list"

definition map_has :: "('k, 'v) jsmap \<Rightarrow> 'k \<Rightarrow> bool" where
  "map_has m k = (map_of m k \<noteq> None)"

definition map_get :: "('k, 'v) jsmap \<Rightarrow> 'k \<Rightarrow> 'v option" where
  "map_get m k = map_of m k"

definition map_set :: "('k, 'v) jsmap \<Rightarrow> 'k \<Rightarrow> 'v \<Rightarrow> ('k, 'v) jsmap" where
  "map_set m k v = AList.update k v m"

definition map_delete :: "('k, 'v) jsmap \<Rightarrow> 'k \<Rightarrow> ('k, 'v) jsmap" where
  "map_delete m k = AList.delete k m"

definition map_keys :: "('k, 'v) jsmap \<Rightarrow> 'k list" where
  "map_keys m = map fst m"

definition set_has :: "'a jsset \<Rightarrow> 'a \<Rightarrow> bool" where
  "set_has s x = (x \<in> set s)"

definition set_add :: "'a jsset \<Rightarrow> 'a \<Rightarrow> 'a jsset" where
  "set_add s x = (if x \<in> set s then s else s @ [x])"

definition set_delete :: "'a jsset \<Rightarrow> 'a \<Rightarrow> 'a jsset" where
  "set_delete s x = removeAll x s"

section \<open>DepGraph: the module dependency graph\<close>

text \<open>
  A JavaScript object is the map from its property names to their values. The node object
  \<^verbatim>\<open>{ id: moduleId, ...metadata, timestamp: Date.now() }\<close> takes \<^verbatim>\<open>id\<close> first, then
  every property of the metadata (an \<^verbatim>\<open>id\<close> among them replaces the first), then the
  time stamp (which replaces a \<^verbatim>\<open>timestamp\<close> of the metadata). The clock reading is an
  argument of \<open>addModule\<close>.
\<close>

datatype 'm jsvalue = JString string | JNumber nat | JOther 'm

type_synonym 'm js_object = "string \<Rightarrow> 'm jsvalue option"

definition node_object :: "string \<Rightarrow> 'm js_object \<Rightarrow> nat \<Rightarrow> 'm js_object" where
  "node_object moduleId meta now =
     ([''id'' \<mapsto> JString moduleId] ++ meta)(''timestamp'' \<mapsto> JNumber now)"

record 'm DepGraph =
  nodes :: "(string, 'm js_object) jsmap"
  incomingEdges :: "(string, string jsset) jsmap"
  outgoingEdges :: "(string, string jsset) jsmap"
  entryNodes :: "string jsset"

text \<open>
  The four \<^verbatim>\<open>throw new Error(...)\<close> of the class, by their messages, and the
  \<^verbatim>\<open>TypeError\<close> that the runtime raises when a method is called on \<^verbatim>\<open>undefined\<close>.
  The specification names two kinds: DuplicateModule and UnknownModule.
\<close>

datatype error =
    ModuleExists string
  | SourceMissing string
  | TargetMissing string
  | ModuleMissing string
  | TypeError

datatype error_kind = DuplicateModule | UnknownModule | RuntimeFault

fun kind_of :: "error \<Rightarrow> error_kind" where
  "kind_of (ModuleExists _) = DuplicateModule"
| "kind_of (SourceMissing _) = UnknownModule"
| "kind_of (TargetMissing _) = UnknownModule"
| "kind_of (ModuleMissing _) = UnknownModule"
| "kind_of TypeError = RuntimeFault"

text \<open>
  A mutating method either returns \<^verbatim>\<open>this\<close> or throws; in both cases the object is left
  in some state, which the outcome carries.
\<close>

datatype 'm outcome = Return "'m DepGraph" | Throw error "'m DepGraph"

fun state_of :: "'m outcome \<Rightarrow> 'm DepGraph" where
  "state_of (Return g) = g"
| "state_of (Throw e g) = g"

definition new_DepGraph :: "'m DepGraph" where
  "new_DepGraph = \<lparr> nodes = [], incomingEdges = [], outgoingEdges = [], entryNodes = [] \<rparr>"

definition addModule ::
  "'m DepGraph \<Rightarrow> string \<Rightarrow> 'm js_object \<Rightarrow> bool \<Rightarrow> nat \<Rightarrow> 'm outcome" where
  "addModule g moduleId meta isEntry now =
     (if map_has (nodes g) moduleId then Throw (ModuleExists moduleId) g
      else
        let g1 = g\<lparr> nodes := map_set (nodes g) moduleId (node_object moduleId meta now) \<rparr>;
            g2 = g1\<lparr> incomingEdges := map_set (incomingEdges g1) moduleId [] \<rparr>;
            g3 = g2\<lparr> outgoingEdges := map_set (outgoingEdges g2) moduleId [] \<rparr>
        in Return (if isEntry then g3\<lparr> entryNodes := set_add (entryNodes g3) moduleId \<rparr>
                   else g3))"

definition addDependency :: "'m DepGraph \<Rightarrow> string \<Rightarrow> string \<Rightarrow> 'm outcome" where
  "addDependency g fromId toId =
     (if \<not> map_has (nodes g) fromId then Throw (SourceMissing fromId) g
      else if \<not> map_has (nodes g) toId then Throw (TargetMissing toId) g
      else
        (case map_get (outgoingEdges g) fromId of
           None \<Rightarrow> Throw TypeError g
         | Some out \<Rightarrow>
             let g1 = g\<lparr> outgoingEdges :=
                          map_set (outgoingEdges g) fromId (set_add out toId) \<rparr>
             in (case map_get (incomingEdges g1) toId of
                   None \<Rightarrow> Throw TypeError g1
                 | Some inc \<Rightarrow>
                     Return (g1\<lparr> incomingEdges :=
                                   map_set (incomingEdges g1) toId (set_add inc fromId) \<rparr>))))"

text \<open>
  The two clean-up loops of \<open>removeModule\<close>. Each iterates one edge set of the removed
  module and deletes the module from a set of the other index.
\<close>

fun remove_incoming :: "'m DepGraph \<Rightarrow> string \<Rightarrow> string list \<Rightarrow> 'm outcome" where
  "remove_incoming g moduleId [] = Return g"
| "remove_incoming g moduleId (incoming # rest) =
     (case map_get (outgoingEdges g) incoming of
        None \<Rightarrow> Throw TypeError g
      | Some out \<Rightarrow>
          remove_incoming
            (g\<lparr> outgoingEdges := map_set (outgoingEdges g) incoming (set_delete out moduleId) \<rparr>)
            moduleId rest)"

fun remove_outgoing :: "'m DepGraph \<Rightarrow> string \<Rightarrow> string list \<Rightarrow> 'm outcome" where
  "remove_outgoing g moduleId [] = Return g"
| "remove_outgoing g moduleId (outgoing # rest) =
     (case map_get (incomingEdges g) outgoing of
        None \<Rightarrow> Throw TypeError g
      | Some inc \<Rightarrow>
          remove_outgoing
            (g\<lparr> incomingEdges := map_set (incomingEdges g) outgoing (set_delete inc moduleId) \<rparr>)
            moduleId rest)"

definition removeModule :: "'m DepGraph \<Rightarrow> string \<Rightarrow> 'm outcome" where
  "removeModule g moduleId =
     (if \<not> map_has (nodes g) moduleId then Throw (ModuleMissing moduleId) g
      else
        (case map_get (incomingEdges g) moduleId of
           None \<Rightarrow> Throw TypeError g
         | Some incomingModules \<Rightarrow>
             (case remove_incoming g moduleId incomingModules of
                Throw e g' \<Rightarrow> Throw e g'
              | Return g1 \<Rightarrow>
                  (case map_get (outgoingEdges g1) moduleId of
                     None \<Rightarrow> Throw TypeError g1
                   | Some outgoingModules \<Rightarrow>
                       (case remove_outgoing g1 moduleId outgoingModules of
                          Throw e g' \<Rightarrow> Throw e g'
                        | Return g2 \<Rightarrow>
                            Return (g2\<lparr> nodes := map_delete (nodes g2) moduleId,
                                        incomingEdges := map_delete (incomingEdges g2) moduleId,
                                        outgoingEdges := map_delete (outgoingEdges g2) moduleId,
                                        entryNodes := set_delete (entryNodes g2) moduleId \<rparr>))))))"

definition getModule :: "'m DepGraph \<Rightarrow> string \<Rightarrow> error + 'm js_object" where
  "getModule g moduleId =
     (case map_get (nodes g) moduleId of
        None \<Rightarrow> Inl (ModuleMissing moduleId)
      | Some module \<Rightarrow> Inr module)"

text \<open>
  A client drives a graph by a sequence of calls of the three mutating methods, starting
  from \<^verbatim>\<open>new DepGraph()\<close>. A call that throws leaves the object in the state reached at
  the throw, and the client may go on calling.
\<close>

datatype 'm call =
    AddModule string "'m js_object" bool nat
  | AddDependency string string
  | RemoveModule string

fun perform :: "'m DepGraph \<Rightarrow> 'm call \<Rightarrow> 'm outcome" where
  "perform g (AddModule moduleId meta isEntry now) = addModule g moduleId meta isEntry now"
| "perform g (AddDependency fromId toId) = addDependency g fromId toId"
| "perform g (RemoveModule moduleId) = removeModule g moduleId"

definition run :: "'m DepGraph \<Rightarrow> 'm call list \<Rightarrow> 'm DepGraph" where
  "run g cs = foldl (\<lambda>g c. state_of (perform g c)) g cs"

definition build :: "'m call list \<Rightarrow> 'm DepGraph" where
  "build cs = run new_DepGraph cs"

text \<open>The metadata of the examples: an object without properties.\<close>

definition no_metadata :: "unit js_object" where
  "no_metadata = Map.empty"

section \<open>Traversals\<close>

text \<open>
  The three depth-first traversals are closures that recurse through a \<^verbatim>\<open>for ... of\<close>
  loop and update sets captured from the enclosing method. Each becomes a pair of mutually
  recursive functions (the closure and its loop) that pass the captured sets along. A
  traversal only recurses below an identifier that has an entry in \<open>outgoingEdges\<close> and
  is not yet visited, so the number of such identifiers bounds the recursion.
\<close>

definition unvisited :: "'m DepGraph \<Rightarrow> string list \<Rightarrow> nat" where
  "unvisited g visited = card (set (map_keys (outgoingEdges g)) - set visited)"

lemma unvisited_mono: "set v \<subseteq> set v' \<Longrightarrow> unvisited g v' \<le> unvisited g v"
  unfolding unvisited_def by (intro card_mono) auto

lemma unvisited_add:
  "c \<notin> set v \<Longrightarrow> map_get (outgoingEdges g) c = Some out \<Longrightarrow> unvisited g (set_add v c) < unvisited g v"
proof -
  assume a: "c \<notin> set v" "map_get (outgoingEdges g) c = Some out"
  then have "c \<in> set (map_keys (outgoingEdges g))"
    by (auto simp: map_get_def map_keys_def dest: map_of_SomeD intro: rev_image_eqI)
  with a have "set (map_keys (outgoingEdges g)) - set (set_add v c) \<subset> set (map_keys (outgoingEdges g)) - set v"
    by (auto simp: set_add_def)
  then show ?thesis unfolding unvisited_def by (intro psubset_card_mono) auto
qed

subsection \<open>getAllDependencies\<close>

function traverse :: "'m DepGraph \<Rightarrow> string \<Rightarrow> string jsset \<times> string jsset \<Rightarrow> string jsset \<times> string jsset"
  and traverse_loop :: "'m DepGraph \<Rightarrow> string list \<Rightarrow> string jsset \<times> string jsset \<Rightarrow> string jsset \<times> string jsset"
where
  "traverse g currentId (visited, dependencies) =
     (if set_has visited currentId then (visited, dependencies)
      else
        (case map_get (outgoingEdges g) currentId of
           None \<Rightarrow> (set_add visited currentId, dependencies)
         | Some outgoing \<Rightarrow> traverse_loop g outgoing (set_add visited currentId, dependencies)))"
| "traverse_loop g [] s = s"
| "traverse_loop g (depId # rest) (visited, dependencies) =
     traverse_loop g rest (traverse g depId (visited, set_add dependencies depId))"
  by pat_completeness auto

lemma traverse_dom_visited:
  "traverse_traverse_loop_dom (Inl (g, c, s)) \<Longrightarrow> set (fst s) \<subseteq> set (fst (traverse g c s))"
  "traverse_traverse_loop_dom (Inr (g, ds, s)) \<Longrightarrow> set (fst s) \<subseteq> set (fst (traverse_loop g ds s))"
proof (induction g c s and g ds s rule: traverse_traverse_loop.pinduct)
  case (1 g currentId visited dependencies)
  then show ?case
    by (auto simp: traverse.psimps set_has_def set_add_def split: option.splits)
next
  case (2 g s)
  then show ?case by (simp add: traverse_loop.psimps)
next
  case (3 g depId rest visited dependencies)
  then show ?case by (auto simp: traverse_loop.psimps)
qed

termination traverse
proof (relation "inv_image (less_than <*lex*> less_than)
    (\<lambda>x. case x of
       Inl (g, c, (v, d)) \<Rightarrow> (unvisited g v, 0)
     | Inr (g, ds, (v, d)) \<Rightarrow> (unvisited g v, Suc (length ds)))", goal_cases)
  case 1
  then show ?case by auto
next
  case (2 g currentId visited dependencies x2)
  then show ?case by (simp add: set_has_def unvisited_add)
next
  case (3 g depId rest visited dependencies)
  then show ?case by simp
next
  case (4 g depId rest visited dependencies)
  from traverse_dom_visited(1)[OF 4]
  have "set visited \<subseteq> set (fst (traverse g depId (visited, set_add dependencies depId)))"
    by simp
  then have "unvisited g (fst (traverse g depId (visited, set_add dependencies depId))) \<le> unvisited g visited"
    by (rule unvisited_mono)
  then show ?case by (auto simp: split_beta)
qed

definition getAllDependencies :: "'m DepGraph \<Rightarrow> string \<Rightarrow> string jsset" where
  "getAllDependencies g moduleId = snd (traverse g moduleId ([], []))"

subsection \<open>findCircularDependencies\<close>

text \<open>
  \<^verbatim>\<open>Array.prototype.indexOf\<close> gives -1 for an absent element, and
  \<^verbatim>\<open>Array.prototype.slice\<close> counts a negative start from the end.
\<close>

definition js_indexOf :: "'a list \<Rightarrow> 'a \<Rightarrow> int" where
  "js_indexOf xs x = (if x \<in> set xs then int (length (takeWhile (\<lambda>y. y \<noteq> x) xs)) else - 1)"

definition js_slice :: "'a list \<Rightarrow> int \<Rightarrow> 'a list" where
  "js_slice xs start =
     (let n = int (length xs);
          k = (if start < 0 then max (n + start) 0 else min start n)
      in drop (nat k) xs)"

type_synonym cycle_state = "string list list \<times> string jsset \<times> string jsset"

fun unwind :: "string \<Rightarrow> cycle_state \<Rightarrow> cycle_state" where
  "unwind moduleId (cycles, visited, recursionStack) =
     (cycles, visited, set_delete recursionStack moduleId)"

lemma unwind_parts [simp]:
  "fst (unwind m s) = fst s"
  "fst (snd (unwind m s)) = fst (snd s)"
  "snd (snd (unwind m s)) = set_delete (snd (snd s)) m"
  by (cases s; simp)+

function detectCycle :: "'m DepGraph \<Rightarrow> string \<Rightarrow> string list \<Rightarrow> cycle_state \<Rightarrow> cycle_state"
  and detectCycle_loop :: "'m DepGraph \<Rightarrow> string list \<Rightarrow> string list \<Rightarrow> cycle_state \<Rightarrow> cycle_state"
where
  "detectCycle g moduleId path (cycles, visited, recursionStack) =
     (if set_has recursionStack moduleId
      then (cycles @ [js_slice path (js_indexOf path moduleId)], visited, recursionStack)
      else if set_has visited moduleId then (cycles, visited, recursionStack)
      else
        (case map_get (outgoingEdges g) moduleId of
           None \<Rightarrow>
             unwind moduleId
               (cycles, set_add visited moduleId, set_add recursionStack moduleId)
         | Some dependencies \<Rightarrow>
             unwind moduleId
               (detectCycle_loop g dependencies (path @ [moduleId])
                  (cycles, set_add visited moduleId, set_add recursionStack moduleId))))"
| "detectCycle_loop g [] path s = s"
| "detectCycle_loop g (depId # rest) path s =
     detectCycle_loop g rest path (detectCycle g depId path s)"
  by pat_completeness auto

lemma detectCycle_dom_visited:
  "detectCycle_detectCycle_loop_dom (Inl (g, c, p, s)) \<Longrightarrow>
     set (fst (snd s)) \<subseteq> set (fst (snd (detectCycle g c p s)))"
  "detectCycle_detectCycle_loop_dom (Inr (g, ds, p, s)) \<Longrightarrow>
     set (fst (snd s)) \<subseteq> set (fst (snd (detectCycle_loop g ds p s)))"
proof (induction g c p s and g ds p s rule: detectCycle_detectCycle_loop.pinduct)
  case (1 g moduleId path cycles visited recursionStack)
  then show ?case
    by (auto simp: detectCycle.psimps set_has_def set_add_def split: option.splits prod.splits)
next
  case (2 g path s)
  then show ?case by (simp add: detectCycle_loop.psimps)
next
  case (3 g depId rest path s)
  then show ?case by (auto simp: detectCycle_loop.psimps)
qed

termination detectCycle
proof (relation "inv_image (less_than <*lex*> less_than)
    (\<lambda>x. case x of
       Inl (g, c, p, (cs, v, rs)) \<Rightarrow> (unvisited g v, 0)
     | Inr (g, ds, p, (cs, v, rs)) \<Rightarrow> (unvisited g v, Suc (length ds)))", goal_cases)
  case 1
  then show ?case by auto
next
  case (2 g moduleId path cycles visited recursionStack dependencies)
  then show ?case by (simp add: set_has_def unvisited_add)
next
  case (3 g depId rest path s)
  then show ?case by (cases s) simp
next
  case (4 g depId rest path s)
  from detectCycle_dom_visited(1)[OF 4]
  have "unvisited g (fst (snd (detectCycle g depId path s))) \<le> unvisited g (fst (snd s))"
    by (rule unvisited_mono)
  then show ?case by (cases s; cases "detectCycle g depId path s") auto
qed

fun find_loop :: "'m DepGraph \<Rightarrow> string list \<Rightarrow> cycle_state \<Rightarrow> cycle_state" where
  "find_loop g [] s = s"
| "find_loop g (moduleId # rest) (cycles, visited, recursionStack) =
     find_loop g rest
       (if \<not> set_has visited moduleId
        then detectCycle g moduleId [] (cycles, visited, recursionStack)
        else (cycles, visited, recursionStack))"

definition findCircularDependencies :: "'m DepGraph \<Rightarrow> string list list" where
  "findCircularDependencies g = fst (find_loop g (map_keys (nodes g)) ([], [], []))"

subsection \<open>getModuleExecutionOrder\<close>

type_synonym order_state = "string jsset \<times> string list"

fun push :: "string \<Rightarrow> order_state \<Rightarrow> order_state" where
  "push moduleId (visited, order) = (visited, order @ [moduleId])"

lemma push_parts [simp]:
  "fst (push m s) = fst s"
  "snd (push m s) = snd s @ [m]"
  by (cases s; simp)+

function visit :: "'m DepGraph \<Rightarrow> string \<Rightarrow> order_state \<Rightarrow> order_state"
  and visit_loop :: "'m DepGraph \<Rightarrow> string list \<Rightarrow> order_state \<Rightarrow> order_state"
where
  "visit g moduleId (visited, order) =
     (if set_has visited moduleId then (visited, order)
      else
        (case map_get (outgoingEdges g) moduleId of
           None \<Rightarrow> push moduleId (set_add visited moduleId, order)
         | Some dependencies \<Rightarrow>
             push moduleId (visit_loop g dependencies (set_add visited moduleId, order))))"
| "visit_loop g [] s = s"
| "visit_loop g (depId # rest) s = visit_loop g rest (visit g depId s)"
  by pat_completeness auto

lemma visit_dom_visited:
  "visit_visit_loop_dom (Inl (g, c, s)) \<Longrightarrow> set (fst s) \<subseteq> set (fst (visit g c s))"
  "visit_visit_loop_dom (Inr (g, ds, s)) \<Longrightarrow> set (fst s) \<subseteq> set (fst (visit_loop g ds s))"
proof (induction g c s and g ds s rule: visit_visit_loop.pinduct)
  case (1 g moduleId visited order)
  then show ?case
    by (auto simp: visit.psimps set_has_def set_add_def split: option.splits prod.splits)
next
  case (2 g s)
  then show ?case by (simp add: visit_loop.psimps)
next
  case (3 g depId rest s)
  then show ?case by (auto simp: visit_loop.psimps)
qed

termination visit
proof (relation "inv_image (less_than <*lex*> less_than)
    (\<lambda>x. case x of
       Inl (g, c, (v, d)) \<Rightarrow> (unvisited g v, 0)
     | Inr (g, ds, (v, d)) \<Rightarrow> (unvisited g v, Suc (length ds)))", goal_cases)
  case 1
  then show ?case by auto
next
  case (2 g moduleId visited order dependencies)
  then show ?case by (simp add: set_has_def unvisited_add)
next
  case (3 g depId rest s)
  then show ?case by (cases s) simp
next
  case (4 g depId rest s)
  from visit_dom_visited(1)[OF 4]
  have "unvisited g (fst (visit g depId s)) \<le> unvisited g (fst s)"
    by (rule unvisited_mono)
  then show ?case by (cases s; cases "visit g depId s") auto
qed

definition getModuleExecutionOrder :: "'m DepGraph \<Rightarrow> string list" where
  "getModuleExecutionOrder g =
     snd (visit_loop g (map_keys (nodes g)) (visit_loop g (entryNodes g) ([], [])))"


declare traverse.simps [simp del] traverse_loop.simps [simp del]
declare detectCycle.simps [simp del] detectCycle_loop.simps [simp del]
declare visit.simps [simp del] visit_loop.simps [simp del]

section \<open>Facts about the containers\<close>

lemma map_has_Nil [simp]: "map_has [] k = False"
  by (simp add: map_has_def)

lemma map_get_Nil [simp]: "map_get [] k = None"
  by (simp add: map_get_def)

lemma map_has_set [simp]: "map_has (map_set m k v) k' = (k' = k \<or> map_has m k')"
  by (auto simp: map_has_def map_set_def update_conv')

lemma map_has_delete [simp]: "map_has (map_delete m k) k' = (k' \<noteq> k \<and> map_has m k')"
  by (auto simp: map_has_def map_delete_def delete_conv')

lemma map_get_set [simp]: "map_get (map_set m k v) k' = (if k' = k then Some v else map_get m k')"
  by (simp add: map_get_def map_set_def update_conv')

lemma map_get_delete [simp]:
  "map_get (map_delete m k) k' = (if k' = k then None else map_get m k')"
  by (simp add: map_get_def map_delete_def delete_conv')

lemma map_has_get: "map_has m k = (map_get m k \<noteq> None)"
  by (simp add: map_has_def map_get_def)

lemma set_set_add [simp]: "set (set_add s x) = insert x (set s)"
  by (auto simp: set_add_def)

lemma set_set_delete [simp]: "set (set_delete s x) = set s - {x}"
  by (auto simp: set_delete_def)

lemma distinct_set_add [simp]: "distinct (set_add s x) = distinct s"
  by (auto simp: set_add_def)

lemma distinct_set_delete [simp]: "distinct s \<Longrightarrow> distinct (set_delete s x)"
  by (simp add: set_delete_def distinct_removeAll)

text \<open>The node object: a metadata property \<^verbatim>\<open>id\<close> wins over the module id.\<close>

lemma node_object_id:
  "node_object moduleId meta now ''id'' =
     (case meta ''id'' of None \<Rightarrow> Some (JString moduleId) | Some v \<Rightarrow> Some v)"
  by (simp add: node_object_def map_add_def split: option.splits)

lemma node_object_timestamp: "node_object moduleId meta now ''timestamp'' = Some (JNumber now)"
  by (simp add: node_object_def)

section \<open>Failing insertions leave the graph as it was\<close>

lemma remove_incoming_nodes: "nodes (state_of (remove_incoming g m xs)) = nodes g"
  by (induction g m xs rule: remove_incoming.induct) (auto split: option.splits)

lemma remove_outgoing_nodes: "nodes (state_of (remove_outgoing g m xs)) = nodes g"
  by (induction g m xs rule: remove_outgoing.induct) (auto split: option.splits)

lemma addModule_keeps_node:
  "map_has (nodes g) k \<Longrightarrow> map_has (nodes (state_of (addModule g i m e n))) k"
  by (simp add: addModule_def Let_def)

lemma addDependency_keeps_node:
  "map_has (nodes g) k \<Longrightarrow> map_has (nodes (state_of (addDependency g a b))) k"
  by (simp add: addDependency_def Let_def split: option.splits)

lemma remove_incoming_result: "remove_incoming g m xs = r \<Longrightarrow> nodes (state_of r) = nodes g"
  using remove_incoming_nodes by blast

lemma remove_outgoing_result: "remove_outgoing g m xs = r \<Longrightarrow> nodes (state_of r) = nodes g"
  using remove_outgoing_nodes by blast

lemma removeModule_nodes:
  "nodes (state_of (removeModule g i)) = nodes g \<or>
   nodes (state_of (removeModule g i)) = map_delete (nodes g) i"
  unfolding removeModule_def
  by (auto split: option.splits outcome.splits
      dest!: remove_incoming_result remove_outgoing_result)

lemma removeModule_keeps_node:
  assumes "map_has (nodes g) k" "i \<noteq> k"
  shows "map_has (nodes (state_of (removeModule g i))) k"
  using removeModule_nodes[of g i] assms by auto

lemma perform_keeps_node:
  "map_has (nodes g) k \<Longrightarrow> c \<noteq> RemoveModule k \<Longrightarrow> map_has (nodes (state_of (perform g c))) k"
  by (cases c) (auto simp: addModule_keeps_node addDependency_keeps_node removeModule_keeps_node)

lemma run_keeps_node:
  "map_has (nodes g) k \<Longrightarrow> RemoveModule k \<notin> set cs \<Longrightarrow> map_has (nodes (run g cs)) k"
proof (induction cs arbitrary: g)
  case Nil
  then show ?case by (simp add: run_def)
next
  case (Cons c cs)
  have "map_has (nodes (state_of (perform g c))) k"
    using Cons.prems by (intro perform_keeps_node) auto
  then have "map_has (nodes (run (state_of (perform g c)) cs)) k"
    using Cons.prems by (intro Cons.IH) auto
  then show ?case by (simp add: run_def)
qed

lemma addModule_Return_has:
  "addModule g i m e n = Return g' \<Longrightarrow> map_has (nodes g') i"
  by (auto simp: addModule_def Let_def split: if_splits)

text \<open>
  Claim C8. When the graph already has a node with the identifier, \<open>addModule\<close> throws
  the "already exists" error (the DuplicateModule kind) and the object is exactly as it was:
  nodes, both edge indexes and the entry set. Hence once \<open>addModule\<close> has succeeded for an
  identifier, and whatever calls follow that do not remove this identifier, a second
  \<open>addModule\<close> for it throws and changes nothing.
\<close>

theorem addModule_duplicate_unchanged:
  "(map_has (nodes g) moduleId \<longrightarrow>
      addModule g moduleId meta isEntry now = Throw (ModuleExists moduleId) g \<and>
      kind_of (ModuleExists moduleId) = DuplicateModule) \<and>
   (addModule g moduleId meta isEntry now = Return g' \<and> RemoveModule moduleId \<notin> set cs \<longrightarrow>
      addModule (run g' cs) moduleId meta' isEntry' now' =
        Throw (ModuleExists moduleId) (run g' cs))"
proof (intro conjI impI)
  assume "map_has (nodes g) moduleId"
  then show "addModule g moduleId meta isEntry now = Throw (ModuleExists moduleId) g"
    by (simp add: addModule_def)
next
  show "kind_of (ModuleExists moduleId) = DuplicateModule" by simp
next
  assume a: "addModule g moduleId meta isEntry now = Return g' \<and> RemoveModule moduleId \<notin> set cs"
  then have "map_has (nodes g') moduleId" by (auto dest: addModule_Return_has)
  with a have "map_has (nodes (run g' cs)) moduleId" by (auto intro: run_keeps_node)
  then show "addModule (run g' cs) moduleId meta' isEntry' now' =
      Throw (ModuleExists moduleId) (run g' cs)"
    by (simp add: addModule_def)
qed

theorem addModule_duplicate_unchanged_witness:
  "map_has (nodes (build [AddModule ''a'' no_metadata True 1])) ''a'' \<and>
   addModule (build [AddModule ''a'' no_metadata True 1]) ''a'' no_metadata False 2 =
     Throw (ModuleExists ''a'') (build [AddModule ''a'' no_metadata True 1]) \<and>
   addModule new_DepGraph ''a'' no_metadata True 1 = Return (build [AddModule ''a'' no_metadata True 1]) \<and>
   RemoveModule ''a'' \<notin> set [AddModule ''b'' no_metadata False 2, AddDependency ''a'' ''b''] \<and>
   addModule (run (build [AddModule ''a'' no_metadata True 1])
                [AddModule ''b'' no_metadata False 2, AddDependency ''a'' ''b'']) ''a'' no_metadata False 3 =
     Throw (ModuleExists ''a'')
       (run (build [AddModule ''a'' no_metadata True 1])
          [AddModule ''b'' no_metadata False 2, AddDependency ''a'' ''b''])"
proof -
  let ?g = "build [AddModule ''a'' no_metadata True 1] :: unit DepGraph"
  have h1: "map_has (nodes ?g) ''a''"
    by (simp add: build_def run_def addModule_def new_DepGraph_def Let_def)
  have h2: "addModule new_DepGraph ''a'' no_metadata True 1 = Return ?g"
    by (simp add: build_def run_def addModule_def new_DepGraph_def Let_def)
  have h3: "RemoveModule ''a'' \<notin> set [AddModule ''b'' no_metadata False 2, AddDependency ''a'' ''b'' :: unit call]"
    by simp
  from addModule_duplicate_unchanged[where g = ?g and moduleId = "''a''" and meta = no_metadata
      and isEntry = False and now = 2]
    h1
  have c1: "addModule ?g ''a'' no_metadata False 2 = Throw (ModuleExists ''a'') ?g" by blast
  from addModule_duplicate_unchanged[where g = new_DepGraph and moduleId = "''a''" and meta = no_metadata
      and isEntry = True and now = 1 and g' = ?g
      and cs = "[AddModule ''b'' no_metadata False 2, AddDependency ''a'' ''b'']"
      and meta' = no_metadata and isEntry' = False and now' = 3] h2 h3
  have c2: "addModule (run ?g [AddModule ''b'' no_metadata False 2, AddDependency ''a'' ''b'']) ''a'' no_metadata False 3 =
     Throw (ModuleExists ''a'') (run ?g [AddModule ''b'' no_metadata False 2, AddDependency ''a'' ''b''])"
    by blast
  from h1 h2 h3 c1 c2 show ?thesis by blast
qed

text \<open>
  Claim C7. When either endpoint is not a node, \<open>addDependency\<close> throws a "does not exist"
  error (the UnknownModule kind) and the object is exactly as it was, so neither the outgoing
  set of the source nor the incoming set of the target has a new member: both checks come
  before the first mutation.
\<close>

theorem addDependency_unknown_unchanged:
  assumes "\<not> map_has (nodes g) fromId \<or> \<not> map_has (nodes g) toId"
  shows "\<exists>e. addDependency g fromId toId = Throw e g \<and> kind_of e = UnknownModule"
  using assms by (auto simp: addDependency_def)

theorem addDependency_unknown_unchanged_witness:
  "map_has (nodes (build [AddModule ''a'' no_metadata True 1])) ''a'' \<and>
   \<not> map_has (nodes (build [AddModule ''a'' no_metadata True 1])) ''b'' \<and>
   (\<exists>e. addDependency (build [AddModule ''a'' no_metadata True 1]) ''a'' ''b'' =
          Throw e (build [AddModule ''a'' no_metadata True 1]) \<and> kind_of e = UnknownModule) \<and>
   (\<exists>e. addDependency (build [AddModule ''a'' no_metadata True 1]) ''b'' ''a'' =
          Throw e (build [AddModule ''a'' no_metadata True 1]) \<and> kind_of e = UnknownModule)"
proof -
  let ?g = "build [AddModule ''a'' no_metadata True 1] :: unit DepGraph"
  have h1: "map_has (nodes ?g) ''a''"
    by (simp add: build_def run_def addModule_def new_DepGraph_def Let_def)
  have h2: "\<not> map_has (nodes ?g) ''b''"
    by (simp add: build_def run_def addModule_def new_DepGraph_def Let_def)
  from h2 have a: "\<not> map_has (nodes ?g) ''a'' \<or> \<not> map_has (nodes ?g) ''b''" by simp
  from h2 have b: "\<not> map_has (nodes ?g) ''b'' \<or> \<not> map_has (nodes ?g) ''a''" by simp
  from addDependency_unknown_unchanged[OF a] addDependency_unknown_unchanged[OF b] h1 h2
  show ?thesis by blast
qed

section \<open>Transitive dependencies\<close>

text \<open>
  The edge relation that \<open>outgoingEdges\<close> denotes: \<open>x\<close> depends on \<open>y\<close>. An identifier
  without an entry has no outgoing edge.
\<close>

definition edges :: "'m DepGraph \<Rightarrow> (string \<times> string) set" where
  "edges g = {(x, y). \<exists>out. map_get (outgoingEdges g) x = Some out \<and> y \<in> set out}"

lemma edges_Some: "map_get (outgoingEdges g) x = Some out \<Longrightarrow> edges g `` {x} = set out"
  by (auto simp: edges_def)

lemma edges_None: "map_get (outgoingEdges g) x = None \<Longrightarrow> edges g `` {x} = {}"
  by (auto simp: edges_def)

definition swept :: "'m DepGraph \<Rightarrow> string set \<Rightarrow> string set \<Rightarrow> string set \<Rightarrow> bool" where
  "swept g roots V V' \<longleftrightarrow>
     V \<subseteq> V' \<and> roots \<subseteq> V' \<and> (\<forall>v \<in> V' - V. edges g `` {v} \<subseteq> V') \<and>
     V' \<subseteq> V \<union> (edges g)\<^sup>* `` roots"

lemma swept_skip: "c \<in> V \<Longrightarrow> swept g {c} V V"
  by (auto simp: swept_def)

lemma swept_leaf: "edges g `` {c} = {} \<Longrightarrow> swept g {c} V (insert c V)"
  by (auto simp: swept_def)

lemma swept_node:
  assumes "swept g (edges g `` {c}) (insert c V) V'"
  shows "swept g {c} V V'"
proof -
  from assms have 1: "insert c V \<subseteq> V'" and 2: "edges g `` {c} \<subseteq> V'"
    and 3: "\<forall>v \<in> V' - insert c V. edges g `` {v} \<subseteq> V'"
    and 4: "V' \<subseteq> insert c V \<union> (edges g)\<^sup>* `` (edges g `` {c})"
    by (simp_all add: swept_def)
  have 5: "(edges g)\<^sup>* `` (edges g `` {c}) \<subseteq> (edges g)\<^sup>* `` {c}"
    by (auto intro: converse_rtrancl_into_rtrancl)
  have "V \<subseteq> V'" "{c} \<subseteq> V'" using 1 by auto
  moreover have "\<forall>v \<in> V' - V. edges g `` {v} \<subseteq> V'"
  proof
    fix v assume "v \<in> V' - V"
    then show "edges g `` {v} \<subseteq> V'" using 2 3 by (cases "v = c") auto
  qed
  moreover have "V' \<subseteq> V \<union> (edges g)\<^sup>* `` {c}"
  proof
    fix x assume "x \<in> V'"
    with 4 have "x = c \<or> x \<in> V \<or> x \<in> (edges g)\<^sup>* `` (edges g `` {c})" by auto
    with 5 show "x \<in> V \<union> (edges g)\<^sup>* `` {c}" by auto
  qed
  ultimately show ?thesis by (simp add: swept_def)
qed

lemma swept_Nil: "swept g {} V V"
  by (simp add: swept_def)

lemma swept_Cons:
  assumes "swept g {d} V V1" "swept g ds V1 V2"
  shows "swept g (insert d ds) V V2"
proof -
  from assms(1) have a1: "V \<subseteq> V1" and a2: "d \<in> V1"
    and a3: "\<forall>v \<in> V1 - V. edges g `` {v} \<subseteq> V1"
    and a4: "V1 \<subseteq> V \<union> (edges g)\<^sup>* `` {d}"
    by (simp_all add: swept_def)
  from assms(2) have b1: "V1 \<subseteq> V2" and b2: "ds \<subseteq> V2"
    and b3: "\<forall>v \<in> V2 - V1. edges g `` {v} \<subseteq> V2"
    and b4: "V2 \<subseteq> V1 \<union> (edges g)\<^sup>* `` ds"
    by (simp_all add: swept_def)
  have "V \<subseteq> V2" "insert d ds \<subseteq> V2" using a1 a2 b1 b2 by auto
  moreover have "\<forall>v \<in> V2 - V. edges g `` {v} \<subseteq> V2"
  proof
    fix v assume v: "v \<in> V2 - V"
    show "edges g `` {v} \<subseteq> V2"
    proof (cases "v \<in> V1")
      case True
      with v a3 have "edges g `` {v} \<subseteq> V1" by simp
      with b1 show ?thesis by simp
    next
      case False
      with v b3 show ?thesis by simp
    qed
  qed
  moreover have "V2 \<subseteq> V \<union> (edges g)\<^sup>* `` insert d ds"
  proof
    fix x assume "x \<in> V2"
    with b4 a4 have "x \<in> V \<or> x \<in> (edges g)\<^sup>* `` {d} \<or> x \<in> (edges g)\<^sup>* `` ds"
      by auto
    then show "x \<in> V \<union> (edges g)\<^sup>* `` insert d ds" by auto
  qed
  ultimately show ?thesis by (simp add: swept_def)
qed

lemma swept_closed:
  assumes "swept g {c} {} V'"
  shows "V' = (edges g)\<^sup>* `` {c}"
proof
  show "V' \<subseteq> (edges g)\<^sup>* `` {c}" using assms by (auto simp: swept_def)
  have "y \<in> V'" if "(c, y) \<in> (edges g)\<^sup>*" for y
    using that
  proof (induction rule: rtrancl_induct)
    case base
    then show ?case using assms by (auto simp: swept_def)
  next
    case (step y z)
    then show ?case using assms by (auto simp: swept_def)
  qed
  then show "(edges g)\<^sup>* `` {c} \<subseteq> V'" by auto
qed

lemma Image_split_node:
  "c \<in> V' \<Longrightarrow> c \<notin> V \<Longrightarrow> E `` (V' - V) = E `` {c} \<union> E `` (V' - insert c V)"
  by blast

lemma Image_split_chain:
  "V \<subseteq> V1 \<Longrightarrow> V1 \<subseteq> V2 \<Longrightarrow> E `` (V2 - V) = E `` (V1 - V) \<union> E `` (V2 - V1)"
  by blast

lemma swept_mono: "swept g roots V V' \<Longrightarrow> V \<subseteq> V'"
  by (simp add: swept_def)

lemma swept_roots: "swept g roots V V' \<Longrightarrow> roots \<subseteq> V'"
  by (simp add: swept_def)

lemma traverse_swept:
  "swept g {c} (set (fst s)) (set (fst (traverse g c s))) \<and>
   set (snd (traverse g c s)) =
     set (snd s) \<union> edges g `` (set (fst (traverse g c s)) - set (fst s))"
  "swept g (set ds) (set (fst s)) (set (fst (traverse_loop g ds s))) \<and>
   set (snd (traverse_loop g ds s)) =
     set (snd s) \<union> set ds \<union> edges g `` (set (fst (traverse_loop g ds s)) - set (fst s))"
proof (induction g c s and g ds s rule: traverse_traverse_loop.induct)
  case (1 g currentId visited dependencies)
  show ?case
  proof (cases "set_has visited currentId")
    case True
    then show ?thesis
      by (simp add: traverse.simps swept_skip set_has_def)
  next
    case unseen: False
    show ?thesis
    proof (cases "map_get (outgoingEdges g) currentId")
      case None
      from unseen have "insert currentId (set visited) - set visited = {currentId}"
        by (auto simp: set_has_def)
      with unseen None show ?thesis
        by (simp add: traverse.simps swept_leaf edges_None set_has_def)
    next
      case (Some outgoing)
      let ?r = "traverse_loop g outgoing (set_add visited currentId, dependencies)"
      from 1[OF unseen Some]
      have sw: "swept g (set outgoing) (insert currentId (set visited)) (set (fst ?r))"
        and deps: "set (snd ?r) = set dependencies \<union> set outgoing \<union>
             edges g `` (set (fst ?r) - insert currentId (set visited))"
        by simp_all
      have res: "traverse g currentId (visited, dependencies) = ?r"
        using unseen Some by (simp add: traverse.simps)
      from sw have sw': "swept g {currentId} (set visited) (set (fst ?r))"
        by (intro swept_node) (simp add: edges_Some[OF Some])
      have "currentId \<in> set (fst ?r)"
        using swept_roots[OF sw'] by simp
      moreover have "currentId \<notin> set visited"
        using unseen by (simp add: set_has_def)
      ultimately have "edges g `` (set (fst ?r) - set visited) =
          edges g `` {currentId} \<union> edges g `` (set (fst ?r) - insert currentId (set visited))"
        by (rule Image_split_node)
      then have "set (snd ?r) = set dependencies \<union> edges g `` (set (fst ?r) - set visited)"
        by (simp add: deps edges_Some[OF Some] Un_assoc)
      with sw' show ?thesis by (simp add: res)
    qed
  qed
next
  case (2 g s)
  then show ?case by (simp add: traverse_loop.simps swept_Nil)
next
  case (3 g depId rest visited dependencies)
  let ?s1 = "traverse g depId (visited, set_add dependencies depId)"
  let ?s2 = "traverse_loop g rest ?s1"
  have res: "traverse_loop g (depId # rest) (visited, dependencies) = ?s2"
    by (simp add: traverse_loop.simps)
  from 3(1) have sw1: "swept g {depId} (set visited) (set (fst ?s1))"
    and d1: "set (snd ?s1) = insert depId (set dependencies) \<union>
        edges g `` (set (fst ?s1) - set visited)" by simp_all
  from 3(2) have sw2: "swept g (set rest) (set (fst ?s1)) (set (fst ?s2))"
    and d2: "set (snd ?s2) = set (snd ?s1) \<union> set rest \<union>
        edges g `` (set (fst ?s2) - set (fst ?s1))" by simp_all
  have sw: "swept g (set (depId # rest)) (set visited) (set (fst ?s2))"
    using swept_Cons[OF sw1 sw2] by simp
  have "edges g `` (set (fst ?s2) - set visited) =
      edges g `` (set (fst ?s1) - set visited) \<union> edges g `` (set (fst ?s2) - set (fst ?s1))"
    using swept_mono[OF sw1] swept_mono[OF sw2] by (rule Image_split_chain)
  then have "set (snd ?s2) = set dependencies \<union> set (depId # rest) \<union>
      edges g `` (set (fst ?s2) - set visited)"
    by (simp add: d1 d2 Un_ac)
  with sw show ?case by (simp only: res fst_conv snd_conv simp_thms)
qed

lemma traverse_distinct:
  "distinct (snd s) \<Longrightarrow> distinct (snd (traverse g c s))"
  "distinct (snd s) \<Longrightarrow> distinct (snd (traverse_loop g ds s))"
proof (induction g c s and g ds s rule: traverse_traverse_loop.induct)
  case (1 g currentId visited dependencies)
  then show ?case by (auto simp: traverse.simps split: option.splits)
next
  case (2 g s)
  then show ?case by (simp add: traverse_loop.simps)
next
  case (3 g depId rest visited dependencies)
  then show ?case by (simp add: traverse_loop.simps)
qed

lemma getAllDependencies_closure:
  "set (getAllDependencies g moduleId) = {y. (moduleId, y) \<in> (edges g)\<^sup>+}"
proof -
  let ?r = "traverse g moduleId ([], [])"
  from traverse_swept(1)[of g moduleId "([], [])"]
  have sw: "swept g {moduleId} {} (set (fst ?r))"
    and deps: "set (snd ?r) = edges g `` set (fst ?r)" by simp_all
  from swept_closed[OF sw] deps
  have "set (snd ?r) = edges g `` ((edges g)\<^sup>* `` {moduleId})" by simp
  also have "\<dots> = {y. (moduleId, y) \<in> (edges g)\<^sup>+}"
    by (auto simp: trancl_unfold_right)
  finally show ?thesis by (simp add: getAllDependencies_def)
qed

lemma getAllDependencies_distinct: "distinct (getAllDependencies g moduleId)"
  unfolding getAllDependencies_def by (rule traverse_distinct(1)) simp

section \<open>The invariant of a graph driven through its methods\<close>

text \<open>
  Every graph reached from \<^verbatim>\<open>new DepGraph()\<close> by calls of the three mutating methods has
  the three maps on the same keys, the two edge indexes mirror each other, and the entry
  points are nodes. In such a graph no method meets \<^verbatim>\<open>undefined\<close>.
\<close>

definition out_of :: "'m DepGraph \<Rightarrow> string \<Rightarrow> string set" where
  "out_of g x = (case map_get (outgoingEdges g) x of None \<Rightarrow> {} | Some s \<Rightarrow> set s)"

definition in_of :: "'m DepGraph \<Rightarrow> string \<Rightarrow> string set" where
  "in_of g y = (case map_get (incomingEdges g) y of None \<Rightarrow> {} | Some s \<Rightarrow> set s)"

definition well_formed :: "'m DepGraph \<Rightarrow> bool" where
  "well_formed g \<longleftrightarrow>
     (\<forall>k. map_has (incomingEdges g) k = map_has (nodes g) k) \<and>
     (\<forall>k. map_has (outgoingEdges g) k = map_has (nodes g) k) \<and>
     (\<forall>x y. (y \<in> out_of g x) = (x \<in> in_of g y)) \<and>
     (\<forall>k. k \<in> set (entryNodes g) \<longrightarrow> map_has (nodes g) k)"

lemma well_formed_new: "well_formed new_DepGraph"
  by (simp add: well_formed_def new_DepGraph_def out_of_def in_of_def)

lemma wf_keys:
  assumes "well_formed g"
  shows "map_has (incomingEdges g) k = map_has (nodes g) k"
    and "map_has (outgoingEdges g) k = map_has (nodes g) k"
  using assms by (simp_all add: well_formed_def)

lemma wf_sym: "well_formed g \<Longrightarrow> (y \<in> out_of g x) = (x \<in> in_of g y)"
  by (simp add: well_formed_def)

lemma wf_entry: "well_formed g \<Longrightarrow> k \<in> set (entryNodes g) \<Longrightarrow> map_has (nodes g) k"
  by (simp add: well_formed_def)

lemma not_has_None: "\<not> map_has m k \<Longrightarrow> map_get m k = None"
  by (simp add: map_has_get)

lemma has_Some: "map_has m k \<Longrightarrow> \<exists>v. map_get m k = Some v"
  by (simp add: map_has_get)

lemma out_of_node: "well_formed g \<Longrightarrow> y \<in> out_of g x \<Longrightarrow> map_has (nodes g) x \<and> map_has (nodes g) y"
proof -
  assume wf: "well_formed g" and y: "y \<in> out_of g x"
  from y have "map_has (outgoingEdges g) x"
    by (auto simp: out_of_def map_has_get split: option.splits)
  moreover from wf y have "x \<in> in_of g y" by (simp add: well_formed_def)
  then have "map_has (incomingEdges g) y"
    by (auto simp: in_of_def map_has_get split: option.splits)
  ultimately show ?thesis using wf by (simp add: well_formed_def)
qed

lemma well_formed_addModule:
  assumes "well_formed g"
  shows "well_formed (state_of (addModule g i m e n))"
proof (cases "map_has (nodes g) i")
  case True
  then show ?thesis using assms by (simp add: addModule_def)
next
  case False
  with assms have ni: "map_get (incomingEdges g) i = None" "map_get (outgoingEdges g) i = None"
    by (simp_all add: not_has_None wf_keys)
  have no_in: "i \<notin> out_of g x" for x
    using out_of_node[OF assms, of i x] False by auto
  have no_out: "i \<notin> in_of g x" for x
    using out_of_node[OF assms, of x i] False assms by (auto simp: well_formed_def)
  let ?g' = "state_of (addModule g i m e n)"
  have o: "out_of ?g' x = out_of g x" for x
    using False ni by (auto simp: addModule_def Let_def out_of_def)
  have i: "in_of ?g' x = in_of g x" for x
    using False ni by (auto simp: addModule_def Let_def in_of_def)
  have n: "map_has (nodes ?g') k = (k = i \<or> map_has (nodes g) k)"
          "map_has (incomingEdges ?g') k = (k = i \<or> map_has (incomingEdges g) k)"
          "map_has (outgoingEdges ?g') k = (k = i \<or> map_has (outgoingEdges g) k)" for k
    using False by (auto simp: addModule_def Let_def)
  have en: "set (entryNodes ?g') \<subseteq> insert i (set (entryNodes g))"
    using False by (auto simp: addModule_def Let_def)
  show ?thesis
    unfolding well_formed_def o i n using assms en by (auto simp: well_formed_def)
qed

lemma well_formed_addDependency:
  assumes "well_formed g"
  shows "well_formed (state_of (addDependency g a b))"
proof (cases "map_has (nodes g) a \<and> map_has (nodes g) b")
  case False
  then show ?thesis using assms by (auto simp: addDependency_def)
next
  case True
  with assms have "map_has (outgoingEdges g) a" "map_has (incomingEdges g) b"
    by (simp_all add: wf_keys)
  then obtain out inc where oi: "map_get (outgoingEdges g) a = Some out"
      "map_get (incomingEdges g) b = Some inc"
    by (auto dest!: has_Some)
  let ?g' = "state_of (addDependency g a b)"
  have g': "?g' = g\<lparr> outgoingEdges := map_set (outgoingEdges g) a (set_add out b),
                      incomingEdges := map_set (incomingEdges g) b (set_add inc a) \<rparr>"
    using True oi by (simp add: addDependency_def Let_def)
  have o: "out_of ?g' x = (if x = a then insert b (out_of g x) else out_of g x)" for x
    using oi by (auto simp: g' out_of_def)
  have i: "in_of ?g' y = (if y = b then insert a (in_of g y) else in_of g y)" for y
    using oi by (auto simp: g' in_of_def)
  have n: "map_has (nodes ?g') k = map_has (nodes g) k"
          "map_has (incomingEdges ?g') k = map_has (incomingEdges g) k"
          "map_has (outgoingEdges ?g') k = map_has (outgoingEdges g) k" for k
    using True oi assms by (auto simp: g' well_formed_def)
  have en: "entryNodes ?g' = entryNodes g" by (simp add: g')
  show ?thesis
    unfolding well_formed_def o i n en using assms by (auto simp: well_formed_def)
qed


lemma remove_incoming_spec:
  assumes "\<forall>x \<in> set xs. map_has (outgoingEdges g) x"
  shows "\<exists>g'. remove_incoming g m xs = Return g' \<and> nodes g' = nodes g \<and>
           incomingEdges g' = incomingEdges g \<and> entryNodes g' = entryNodes g \<and>
           (\<forall>k. map_get (outgoingEdges g') k =
                 (if k \<in> set xs then map_option (\<lambda>s. set_delete s m) (map_get (outgoingEdges g) k)
                  else map_get (outgoingEdges g) k))"
  using assms
proof (induction xs arbitrary: g)
  case Nil
  then show ?case by simp
next
  case (Cons x xs)
  from Cons.prems obtain out where out: "map_get (outgoingEdges g) x = Some out"
    by (auto dest!: has_Some)
  let ?g1 = "g\<lparr> outgoingEdges := map_set (outgoingEdges g) x (set_delete out m) \<rparr>"
  have "\<forall>y \<in> set xs. map_has (outgoingEdges ?g1) y"
    using Cons.prems by simp
  from Cons.IH[OF this] obtain g' where g': "remove_incoming ?g1 m xs = Return g'"
    "nodes g' = nodes ?g1" "incomingEdges g' = incomingEdges ?g1" "entryNodes g' = entryNodes ?g1"
    "\<And>k. map_get (outgoingEdges g') k =
        (if k \<in> set xs then map_option (\<lambda>s. set_delete s m) (map_get (outgoingEdges ?g1) k)
         else map_get (outgoingEdges ?g1) k)"
    by blast
  have "remove_incoming g m (x # xs) = Return g'"
    using out g'(1) by simp
  moreover have "map_get (outgoingEdges g') k =
      (if k \<in> set (x # xs) then map_option (\<lambda>s. set_delete s m) (map_get (outgoingEdges g) k)
       else map_get (outgoingEdges g) k)" for k
    using g'(5)[of k] out by (auto simp: set_delete_def)
  ultimately show ?case using g'(2,3,4) by simp
qed

lemma remove_outgoing_spec:
  assumes "\<forall>x \<in> set xs. map_has (incomingEdges g) x"
  shows "\<exists>g'. remove_outgoing g m xs = Return g' \<and> nodes g' = nodes g \<and>
           outgoingEdges g' = outgoingEdges g \<and> entryNodes g' = entryNodes g \<and>
           (\<forall>k. map_get (incomingEdges g') k =
                 (if k \<in> set xs then map_option (\<lambda>s. set_delete s m) (map_get (incomingEdges g) k)
                  else map_get (incomingEdges g) k))"
  using assms
proof (induction xs arbitrary: g)
  case Nil
  then show ?case by simp
next
  case (Cons x xs)
  from Cons.prems obtain inc where inc: "map_get (incomingEdges g) x = Some inc"
    by (auto dest!: has_Some)
  let ?g1 = "g\<lparr> incomingEdges := map_set (incomingEdges g) x (set_delete inc m) \<rparr>"
  have "\<forall>y \<in> set xs. map_has (incomingEdges ?g1) y"
    using Cons.prems by simp
  from Cons.IH[OF this] obtain g' where g': "remove_outgoing ?g1 m xs = Return g'"
    "nodes g' = nodes ?g1" "outgoingEdges g' = outgoingEdges ?g1" "entryNodes g' = entryNodes ?g1"
    "\<And>k. map_get (incomingEdges g') k =
        (if k \<in> set xs then map_option (\<lambda>s. set_delete s m) (map_get (incomingEdges ?g1) k)
         else map_get (incomingEdges ?g1) k)"
    by blast
  have "remove_outgoing g m (x # xs) = Return g'"
    using inc g'(1) by simp
  moreover have "map_get (incomingEdges g') k =
      (if k \<in> set (x # xs) then map_option (\<lambda>s. set_delete s m) (map_get (incomingEdges g) k)
       else map_get (incomingEdges g) k)" for k
    using g'(5)[of k] inc by (auto simp: set_delete_def)
  ultimately show ?case using g'(2,3,4) by simp
qed

lemma removeModule_spec:
  assumes wf: "well_formed g" and node: "map_has (nodes g) i"
  shows "\<exists>g'. removeModule g i = Return g' \<and>
           (\<forall>k. map_get (nodes g') k = (if k = i then None else map_get (nodes g) k)) \<and>
           (\<forall>k. map_has (incomingEdges g') k = (k \<noteq> i \<and> map_has (incomingEdges g) k)) \<and>
           (\<forall>k. map_has (outgoingEdges g') k = (k \<noteq> i \<and> map_has (outgoingEdges g) k)) \<and>
           (\<forall>k. out_of g' k = (if k = i then {} else out_of g k - {i})) \<and>
           (\<forall>k. in_of g' k = (if k = i then {} else in_of g k - {i})) \<and>
           set (entryNodes g') = set (entryNodes g) - {i}"
proof -
  from wf node have "map_has (incomingEdges g) i" "map_has (outgoingEdges g) i"
    by (simp_all add: wf_keys)
  then obtain incs outs where incs: "map_get (incomingEdges g) i = Some incs"
    and outs: "map_get (outgoingEdges g) i = Some outs"
    by (auto dest!: has_Some)
  have in_i: "in_of g i = set incs" and out_i: "out_of g i = set outs"
    using incs outs by (simp_all add: in_of_def out_of_def)
  have "\<forall>x \<in> set incs. map_has (outgoingEdges g) x"
  proof
    fix x assume "x \<in> set incs"
    then have "i \<in> out_of g x" using in_i wf_sym[OF wf, of i x] by simp
    from out_of_node[OF wf this] show "map_has (outgoingEdges g) x"
      by (simp add: wf_keys[OF wf])
  qed
  from remove_incoming_spec[OF this, of i] obtain g1 where g1:
    "remove_incoming g i incs = Return g1" "nodes g1 = nodes g"
    "incomingEdges g1 = incomingEdges g" "entryNodes g1 = entryNodes g"
    "\<And>k. map_get (outgoingEdges g1) k =
        (if k \<in> set incs then map_option (\<lambda>s. set_delete s i) (map_get (outgoingEdges g) k)
         else map_get (outgoingEdges g) k)"
    by blast
  define outs' where "outs' = (if i \<in> set incs then set_delete outs i else outs)"
  have outs1: "map_get (outgoingEdges g1) i = Some outs'"
    using g1(5)[of i] outs by (simp add: outs'_def)
  have outs'_sub: "set outs' \<subseteq> set outs" "set outs - {i} \<subseteq> set outs'"
    by (auto simp: outs'_def)
  have "\<forall>y \<in> set outs'. map_has (incomingEdges g1) y"
  proof
    fix y assume "y \<in> set outs'"
    then have "y \<in> out_of g i" using outs'_sub out_i by auto
    from out_of_node[OF wf this] show "map_has (incomingEdges g1) y"
      by (simp add: g1(3) wf_keys[OF wf])
  qed
  from remove_outgoing_spec[OF this, of i] obtain g2 where g2:
    "remove_outgoing g1 i outs' = Return g2" "nodes g2 = nodes g1"
    "outgoingEdges g2 = outgoingEdges g1" "entryNodes g2 = entryNodes g1"
    "\<And>k. map_get (incomingEdges g2) k =
        (if k \<in> set outs' then map_option (\<lambda>s. set_delete s i) (map_get (incomingEdges g1) k)
         else map_get (incomingEdges g1) k)"
    by blast
  let ?g' = "g2\<lparr> nodes := map_delete (nodes g2) i,
                  incomingEdges := map_delete (incomingEdges g2) i,
                  outgoingEdges := map_delete (outgoingEdges g2) i,
                  entryNodes := set_delete (entryNodes g2) i \<rparr>"
  have res: "removeModule g i = Return ?g'"
    using node incs g1(1) outs1 g2(1) by (simp add: removeModule_def)
  have og: "map_get (outgoingEdges ?g') k =
      (if k = i then None
       else if k \<in> set incs then map_option (\<lambda>s. set_delete s i) (map_get (outgoingEdges g) k)
       else map_get (outgoingEdges g) k)" for k
    by (simp add: g2(3) g1(5))
  have ig: "map_get (incomingEdges ?g') k =
      (if k = i then None
       else if k \<in> set outs' then map_option (\<lambda>s. set_delete s i) (map_get (incomingEdges g) k)
       else map_get (incomingEdges g) k)" for k
    by (simp add: g2(5) g1(3))
  have 1: "map_get (nodes ?g') k = (if k = i then None else map_get (nodes g) k)" for k
    by (simp add: g2(2) g1(2))
  have 2: "map_has (incomingEdges ?g') k = (k \<noteq> i \<and> map_has (incomingEdges g) k)" for k
    unfolding map_has_get ig by (auto simp: map_has_get)
  have 3: "map_has (outgoingEdges ?g') k = (k \<noteq> i \<and> map_has (outgoingEdges g) k)" for k
    unfolding map_has_get og by (auto simp: map_has_get)
  have 4: "out_of ?g' k = (if k = i then {} else out_of g k - {i})" for k
  proof (cases "k = i")
    case True
    then show ?thesis unfolding out_of_def og by simp
  next
    case False
    show ?thesis
    proof (cases "k \<in> set incs")
      case True
      with False show ?thesis unfolding out_of_def og by (auto split: option.splits)
    next
      case notin: False
      then have "i \<notin> out_of g k" using in_i wf_sym[OF wf, of i k] by simp
      then have "out_of g k - {i} = out_of g k" by auto
      with False notin show ?thesis unfolding out_of_def og by simp
    qed
  qed
  have 5: "in_of ?g' k = (if k = i then {} else in_of g k - {i})" for k
  proof (cases "k = i")
    case True
    then show ?thesis unfolding in_of_def ig by simp
  next
    case False
    show ?thesis
    proof (cases "k \<in> set outs'")
      case True
      with False show ?thesis unfolding in_of_def ig by (auto split: option.splits)
    next
      case notin: False
      with False outs'_sub have "k \<notin> out_of g i" using out_i by auto
      then have "i \<notin> in_of g k" using wf_sym[OF wf, of k i] by simp
      then have "in_of g k - {i} = in_of g k" by auto
      with False notin show ?thesis unfolding in_of_def ig by simp
    qed
  qed
  have 6: "set (entryNodes ?g') = set (entryNodes g) - {i}"
    by (simp add: g2(4) g1(4))
  show ?thesis
  proof (intro exI[of _ ?g'] conjI allI)
    show "removeModule g i = Return ?g'" by (rule res)
  qed (rule 1 2 3 4 5 6)+
qed

lemma well_formed_removeModule:
  assumes wf: "well_formed g"
  shows "well_formed (state_of (removeModule g i))"
proof (cases "map_has (nodes g) i")
  case False
  then show ?thesis using wf by (simp add: removeModule_def)
next
  case True
  from removeModule_spec[OF wf True] obtain g' where all:
    "removeModule g i = Return g' \<and>
     (\<forall>k. map_get (nodes g') k = (if k = i then None else map_get (nodes g) k)) \<and>
     (\<forall>k. map_has (incomingEdges g') k = (k \<noteq> i \<and> map_has (incomingEdges g) k)) \<and>
     (\<forall>k. map_has (outgoingEdges g') k = (k \<noteq> i \<and> map_has (outgoingEdges g) k)) \<and>
     (\<forall>k. out_of g' k = (if k = i then {} else out_of g k - {i})) \<and>
     (\<forall>k. in_of g' k = (if k = i then {} else in_of g k - {i})) \<and>
     set (entryNodes g') = set (entryNodes g) - {i}" ..
  from all have g': "removeModule g i = Return g'" by (rule conjunct1)
  from all have n: "map_get (nodes g') k = (if k = i then None else map_get (nodes g) k)" for k
    by simp
  from all have ik: "map_has (incomingEdges g') k = (k \<noteq> i \<and> map_has (incomingEdges g) k)" for k
    by simp
  from all have ok: "map_has (outgoingEdges g') k = (k \<noteq> i \<and> map_has (outgoingEdges g) k)" for k
    by simp
  from all have oo: "out_of g' k = (if k = i then {} else out_of g k - {i})" for k
    by simp
  from all have ii: "in_of g' k = (if k = i then {} else in_of g k - {i})" for k
    by simp
  from all have en: "set (entryNodes g') = set (entryNodes g) - {i}"
    by simp
  have nh: "map_has (nodes g') k = (k \<noteq> i \<and> map_has (nodes g) k)" for k
    by (simp add: map_has_get n)
  have "well_formed g'"
    unfolding well_formed_def
  proof (intro conjI allI impI)
    fix k show "map_has (incomingEdges g') k = map_has (nodes g') k"
      by (simp add: ik nh wf_keys[OF wf])
  next
    fix k show "map_has (outgoingEdges g') k = map_has (nodes g') k"
      by (simp add: ok nh wf_keys[OF wf])
  next
    fix x y show "(y \<in> out_of g' x) = (x \<in> in_of g' y)"
      using wf_sym[OF wf, of y x] by (auto simp: oo ii)
  next
    fix k assume "k \<in> set (entryNodes g')"
    then show "map_has (nodes g') k" using wf_entry[OF wf, of k] by (simp add: en nh)
  qed
  with g' show ?thesis by simp
qed

lemma well_formed_perform: "well_formed g \<Longrightarrow> well_formed (state_of (perform g c))"
  by (cases c) (simp_all add: well_formed_addModule well_formed_addDependency well_formed_removeModule)

lemma well_formed_run: "well_formed g \<Longrightarrow> well_formed (run g cs)"
proof (induction cs arbitrary: g)
  case Nil
  then show ?case by (simp add: run_def)
next
  case (Cons c cs)
  from Cons.IH[OF well_formed_perform[OF Cons.prems, of c]] show ?case
    by (simp add: run_def)
qed

lemma well_formed_build: "well_formed (build cs)"
  unfolding build_def by (rule well_formed_run[OF well_formed_new])

section \<open>An example: three modules in a cycle\<close>

definition cycle3_calls :: "unit call list" where
  "cycle3_calls =
     [AddModule ''A'' no_metadata True 0, AddModule ''B'' no_metadata False 0, AddModule ''C'' no_metadata False 0,
      AddDependency ''A'' ''B'', AddDependency ''B'' ''C'', AddDependency ''C'' ''A'']"

definition cycle3 :: "unit DepGraph" where
  "cycle3 = build cycle3_calls"

lemma cycle3_eval:
  "cycle3 =
     \<lparr> nodes = [(''A'', node_object ''A'' no_metadata 0),
                (''B'', node_object ''B'' no_metadata 0),
                (''C'', node_object ''C'' no_metadata 0)],
       incomingEdges = [(''A'', [''C'']), (''B'', [''A'']), (''C'', [''B''])],
       outgoingEdges = [(''A'', [''B'']), (''B'', [''C'']), (''C'', [''A''])],
       entryNodes = [''A''] \<rparr>"
  by (simp add: cycle3_def cycle3_calls_def build_def run_def addModule_def addDependency_def
      new_DepGraph_def Let_def map_set_def set_add_def map_has_def map_get_def)

lemma cycle3_deps: "getAllDependencies cycle3 ''A'' = [''B'', ''C'', ''A'']"
  by (simp add: getAllDependencies_def cycle3_eval traverse.simps traverse_loop.simps
      map_get_def set_has_def set_add_def)

section \<open>Claims about getAllDependencies and removeModule\<close>

text \<open>
  Claim C1. For every graph (in particular every graph built by a sequence of
  \<open>addModule\<close> and \<open>addDependency\<close> calls) and every identifier,
  \<open>getAllDependencies\<close> returns each identifier reachable by one or more outgoing edges
  exactly once and nothing else; the start identifier is in the result exactly when a cycle
  leads back to it.
\<close>

theorem getAllDependencies_reachable:
  "distinct (getAllDependencies g moduleId) \<and>
   set (getAllDependencies g moduleId) = {y. (moduleId, y) \<in> (edges g)\<^sup>+} \<and>
   (moduleId \<in> set (getAllDependencies g moduleId)) = ((moduleId, moduleId) \<in> (edges g)\<^sup>+)"
  by (simp add: getAllDependencies_closure getAllDependencies_distinct)

theorem getAllDependencies_reachable_witness:
  "getAllDependencies cycle3 ''A'' = [''B'', ''C'', ''A''] \<and>
   {y. (''A'', y) \<in> (edges cycle3)\<^sup>+} = {''A'', ''B'', ''C''} \<and>
   (''A'', ''A'') \<in> (edges cycle3)\<^sup>+"
  using getAllDependencies_reachable[of cycle3 "''A''"] by (auto simp: cycle3_deps)

text \<open>
  Claim C10. For an identifier that is not a node of a graph built through the methods,
  \<open>getAllDependencies\<close> returns the empty set (it has no throwing path and returns no
  graph), where \<open>getModule\<close> and \<open>removeModule\<close> throw the "does not exist" error.
\<close>

theorem getAllDependencies_unknown_empty:
  assumes "\<not> map_has (nodes (build cs)) moduleId"
  shows "getAllDependencies (build cs) moduleId = [] \<and>
         getModule (build cs) moduleId = Inl (ModuleMissing moduleId) \<and>
         removeModule (build cs) moduleId = Throw (ModuleMissing moduleId) (build cs)"
proof -
  have "\<not> map_has (outgoingEdges (build cs)) moduleId"
    using assms by (simp add: wf_keys[OF well_formed_build])
  then have "map_get (outgoingEdges (build cs)) moduleId = None"
    by (rule not_has_None)
  then have "getAllDependencies (build cs) moduleId = []"
    by (simp add: getAllDependencies_def traverse.simps set_has_def)
  moreover have "getModule (build cs) moduleId = Inl (ModuleMissing moduleId)"
    using assms by (simp add: getModule_def not_has_None)
  moreover have "removeModule (build cs) moduleId = Throw (ModuleMissing moduleId) (build cs)"
    using assms by (simp add: removeModule_def)
  ultimately show ?thesis by simp
qed

theorem getAllDependencies_unknown_empty_witness:
  "\<not> map_has (nodes (build cycle3_calls)) ''D'' \<and>
   getAllDependencies (build cycle3_calls) ''D'' = [] \<and>
   getModule (build cycle3_calls) ''D'' = Inl (ModuleMissing ''D'') \<and>
   removeModule (build cycle3_calls) ''D'' = Throw (ModuleMissing ''D'') (build cycle3_calls)"
proof -
  have h: "\<not> map_has (nodes (build cycle3_calls)) ''D''"
    unfolding cycle3_def[symmetric] by (simp add: cycle3_eval map_has_def)
  from getAllDependencies_unknown_empty[OF h] h show ?thesis by simp
qed

text \<open>
  Claim C6. In a graph built through the methods, \<open>removeModule\<close> of a node returns, and
  afterwards the identifier is in no outgoing set, in no incoming set and not in the entry
  set, and \<open>getModule\<close> throws the "does not exist" error (the UnknownModule kind).
\<close>

theorem removeModule_clears:
  assumes "map_has (nodes (build cs)) moduleId"
  shows "\<exists>g'. removeModule (build cs) moduleId = Return g' \<and>
           (\<forall>k s. map_get (outgoingEdges g') k = Some s \<longrightarrow> moduleId \<notin> set s) \<and>
           (\<forall>k s. map_get (incomingEdges g') k = Some s \<longrightarrow> moduleId \<notin> set s) \<and>
           moduleId \<notin> set (entryNodes g') \<and>
           getModule g' moduleId = Inl (ModuleMissing moduleId) \<and>
           kind_of (ModuleMissing moduleId) = UnknownModule"
proof -
  from removeModule_spec[OF well_formed_build assms] obtain g' where all:
    "removeModule (build cs) moduleId = Return g' \<and>
     (\<forall>k. map_get (nodes g') k = (if k = moduleId then None else map_get (nodes (build cs)) k)) \<and>
     (\<forall>k. map_has (incomingEdges g') k = (k \<noteq> moduleId \<and> map_has (incomingEdges (build cs)) k)) \<and>
     (\<forall>k. map_has (outgoingEdges g') k = (k \<noteq> moduleId \<and> map_has (outgoingEdges (build cs)) k)) \<and>
     (\<forall>k. out_of g' k = (if k = moduleId then {} else out_of (build cs) k - {moduleId})) \<and>
     (\<forall>k. in_of g' k = (if k = moduleId then {} else in_of (build cs) k - {moduleId})) \<and>
     set (entryNodes g') = set (entryNodes (build cs)) - {moduleId}" ..
  from all have oo: "moduleId \<notin> out_of g' k" for k by simp
  from all have ii: "moduleId \<notin> in_of g' k" for k by simp
  have 1: "\<forall>k s. map_get (outgoingEdges g') k = Some s \<longrightarrow> moduleId \<notin> set s"
  proof (intro allI impI)
    fix k s assume "map_get (outgoingEdges g') k = Some s"
    with oo[of k] show "moduleId \<notin> set s" by (simp add: out_of_def)
  qed
  have 2: "\<forall>k s. map_get (incomingEdges g') k = Some s \<longrightarrow> moduleId \<notin> set s"
  proof (intro allI impI)
    fix k s assume "map_get (incomingEdges g') k = Some s"
    with ii[of k] show "moduleId \<notin> set s" by (simp add: in_of_def)
  qed
  from all have 3: "moduleId \<notin> set (entryNodes g')" by simp
  from all have "map_get (nodes g') moduleId = None" by simp
  then have 4: "getModule g' moduleId = Inl (ModuleMissing moduleId)"
    by (simp add: getModule_def)
  from all have 0: "removeModule (build cs) moduleId = Return g'" by (rule conjunct1)
  from 0 1 2 3 4 show ?thesis by simp
qed

theorem removeModule_clears_witness:
  "map_has (nodes (build cycle3_calls)) ''A'' \<and>
   (\<exists>g'. removeModule (build cycle3_calls) ''A'' = Return g' \<and>
      (\<forall>k s. map_get (outgoingEdges g') k = Some s \<longrightarrow> ''A'' \<notin> set s) \<and>
      (\<forall>k s. map_get (incomingEdges g') k = Some s \<longrightarrow> ''A'' \<notin> set s) \<and>
      ''A'' \<notin> set (entryNodes g') \<and>
      getModule g' ''A'' = Inl (ModuleMissing ''A'') \<and>
      kind_of (ModuleMissing ''A'') = UnknownModule)"
proof -
  have h: "map_has (nodes (build cycle3_calls)) ''A''"
    unfolding cycle3_def[symmetric] by (simp add: cycle3_eval map_has_def)
  from h removeModule_clears[OF h] show ?thesis by (rule conjI)
qed

lemma cycle3_removed:
  "removeModule cycle3 ''A'' = Return
     \<lparr> nodes = [(''B'', node_object ''B'' no_metadata 0),
                (''C'', node_object ''C'' no_metadata 0)],
       incomingEdges = [(''B'', []), (''C'', [''B''])],
       outgoingEdges = [(''B'', [''C'']), (''C'', [])],
       entryNodes = [] \<rparr>"
  by (simp add: cycle3_eval removeModule_def map_has_def map_get_def map_set_def map_delete_def
      set_delete_def)

section \<open>Cycle detection on a ring of three modules\<close>

lemma find_loop_visited:
  "set ks \<subseteq> set visited \<Longrightarrow> find_loop g ks (cycles, visited, rs) = (cycles, visited, rs)"
  by (induction ks) (simp_all add: set_has_def)

lemma detectCycle_ring:
  assumes ne: "a \<noteq> b" "a \<noteq> c" "b \<noteq> c"
    and out: "map_get (outgoingEdges g) a = Some [b]"
      "map_get (outgoingEdges g) b = Some [c]"
      "map_get (outgoingEdges g) c = Some [a]"
  shows "detectCycle g a [] ([], [], []) = ([[a, b, c]], [a, b, c], [])"
proof -
  from ne have ne': "b \<noteq> a" "c \<noteq> a" "c \<noteq> b" by auto
  show ?thesis
    by (simp add: detectCycle.simps detectCycle_loop.simps out ne ne' set_has_def set_add_def
        set_delete_def js_slice_def js_indexOf_def)
qed

lemma traverse_ring:
  assumes ne: "a \<noteq> b" "a \<noteq> c" "b \<noteq> c"
    and out: "map_get (outgoingEdges g) a = Some [b]"
      "map_get (outgoingEdges g) b = Some [c]"
      "map_get (outgoingEdges g) c = Some [a]"
  shows "getAllDependencies g a = [b, c, a]"
proof -
  from ne have ne': "b \<noteq> a" "c \<noteq> a" "c \<noteq> b" by auto
  show ?thesis
    by (simp add: getAllDependencies_def traverse.simps traverse_loop.simps out ne ne'
        set_has_def set_add_def)
qed

text \<open>
  Claim C5. In a graph whose nodes are three distinct modules A, B, C with the edges
  A\<rightarrow>B, B\<rightarrow>C, C\<rightarrow>A, in whatever order the nodes were inserted,
  \<open>findCircularDependencies\<close> returns one cycle, \<open>[A, B, C]\<close> or a rotation of it, and
  \<open>getAllDependencies\<close> of A returns B, C and A, each once. In the example graph, where A
  is the entry point and was inserted first, the cycle is \<open>[A, B, C]\<close>.
\<close>

theorem three_cycle_detected:
  assumes ne: "a \<noteq> b" "a \<noteq> c" "b \<noteq> c"
    and keys: "set (map_keys (nodes g)) = {a, b, c}"
    and out: "map_get (outgoingEdges g) a = Some [b]"
      "map_get (outgoingEdges g) b = Some [c]"
      "map_get (outgoingEdges g) c = Some [a]"
  shows "findCircularDependencies g \<in> {[[a, b, c]], [[b, c, a]], [[c, a, b]]} \<and>
         getAllDependencies g a = [b, c, a]"
proof -
  from keys obtain k ks where ks: "map_keys (nodes g) = k # ks"
    by (cases "map_keys (nodes g)") auto
  with keys have k: "k = a \<or> k = b \<or> k = c" and sub: "set ks \<subseteq> {a, b, c}" by auto
  from ne have ne': "b \<noteq> a" "c \<noteq> a" "c \<noteq> b" by auto
  have first: "find_loop g (k # ks) ([], [], []) = find_loop g ks (detectCycle g k [] ([], [], []))"
    by (simp add: set_has_def)
  from k have "findCircularDependencies g \<in> {[[a, b, c]], [[b, c, a]], [[c, a, b]]}"
  proof (elim disjE)
    assume "k = a"
    then have "detectCycle g k [] ([], [], []) = ([[a, b, c]], [a, b, c], [])"
      using detectCycle_ring[OF ne out] by simp
    moreover have "find_loop g ks ([[a, b, c]], [a, b, c], []) = ([[a, b, c]], [a, b, c], [])"
      using sub by (intro find_loop_visited) auto
    ultimately show ?thesis unfolding findCircularDependencies_def ks first by simp
  next
    assume "k = b"
    then have "detectCycle g k [] ([], [], []) = ([[b, c, a]], [b, c, a], [])"
      using detectCycle_ring[OF ne(3) ne'(1) ne'(2) out(2) out(3) out(1)] by simp
    moreover have "find_loop g ks ([[b, c, a]], [b, c, a], []) = ([[b, c, a]], [b, c, a], [])"
      using sub by (intro find_loop_visited) auto
    ultimately show ?thesis unfolding findCircularDependencies_def ks first by simp
  next
    assume "k = c"
    then have "detectCycle g k [] ([], [], []) = ([[c, a, b]], [c, a, b], [])"
      using detectCycle_ring[OF ne'(2) ne'(3) ne(1) out(3) out(1) out(2)] by simp
    moreover have "find_loop g ks ([[c, a, b]], [c, a, b], []) = ([[c, a, b]], [c, a, b], [])"
      using sub by (intro find_loop_visited) auto
    ultimately show ?thesis unfolding findCircularDependencies_def ks first by simp
  qed
  with traverse_ring[OF ne out] show ?thesis by simp
qed

theorem three_cycle_detected_witness:
  "findCircularDependencies cycle3 = [[''A'', ''B'', ''C'']] \<and>
   getAllDependencies cycle3 ''A'' = [''B'', ''C'', ''A''] \<and>
   set (map_keys (nodes cycle3)) = {''A'', ''B'', ''C''} \<and>
   entryNodes cycle3 = [''A'']"
proof -
  have keys: "set (map_keys (nodes cycle3)) = {''A'', ''B'', ''C''}"
    by (simp add: cycle3_eval map_keys_def)
  have out: "map_get (outgoingEdges cycle3) ''A'' = Some [''B'']"
    "map_get (outgoingEdges cycle3) ''B'' = Some [''C'']"
    "map_get (outgoingEdges cycle3) ''C'' = Some [''A'']"
    by (simp_all add: cycle3_eval map_get_def)
  have ne: "''A'' \<noteq> ''B''" "''A'' \<noteq> ''C''" "''B'' \<noteq> ''C''" by simp_all
  have first: "findCircularDependencies cycle3 \<noteq> [[''B'', ''C'', ''A'']]"
    "findCircularDependencies cycle3 \<noteq> [[''C'', ''A'', ''B'']]"
    by (simp_all add: findCircularDependencies_def cycle3_eval map_keys_def
        detectCycle.simps detectCycle_loop.simps map_get_def set_has_def set_add_def
        set_delete_def js_slice_def js_indexOf_def)
  from three_cycle_detected[OF ne keys out] first keys show ?thesis
    by (simp add: cycle3_eval)
qed

section \<open>Execution order\<close>

text \<open>
  \<open>before xs a b\<close>: \<open>b\<close> occurs in \<open>xs\<close> and \<open>a\<close> occurs ahead of its first occurrence.
  During the traversal a visited module that is not yet in the order is one whose \<open>visit\<close>
  is still running; every such module reaches the module being visited. \<open>emitted\<close> is what
  one call of \<open>visit\<close> (or one run of its loop) adds to the order.
\<close>

definition before :: "'a list \<Rightarrow> 'a \<Rightarrow> 'a \<Rightarrow> bool" where
  "before xs a b \<longleftrightarrow> b \<in> set xs \<and> a \<in> set (takeWhile (\<lambda>z. z \<noteq> b) xs)"

lemma before_append: "before xs a b \<Longrightarrow> before (xs @ ys) a b"
  unfolding before_def by (induction xs) auto

lemma before_snoc: "a \<in> set xs \<Longrightarrow> b \<notin> set xs \<Longrightarrow> before (xs @ [b]) a b"
  unfolding before_def by (induction xs) auto

definition grey_reach :: "'m DepGraph \<Rightarrow> string \<Rightarrow> order_state \<Rightarrow> bool" where
  "grey_reach g p s \<longleftrightarrow>
     set (snd s) \<subseteq> set (fst s) \<and>
     (\<forall>w. w \<in> set (fst s) \<and> w \<notin> set (snd s) \<longrightarrow> (w, p) \<in> (edges g)\<^sup>*)"

definition fresh :: "order_state \<Rightarrow> order_state \<Rightarrow> string list" where
  "fresh s s' = drop (length (snd s)) (snd s')"

definition emitted :: "'m DepGraph \<Rightarrow> string set \<Rightarrow> order_state \<Rightarrow> order_state \<Rightarrow> bool" where
  "emitted g roots s s' \<longleftrightarrow>
     snd s' = snd s @ fresh s s' \<and> distinct (fresh s s') \<and>
     set (fresh s s') = set (fst s') - set (fst s) \<and>
     set (fst s) \<subseteq> set (fst s') \<and> roots \<subseteq> set (fst s') \<and>
     set (fresh s s') \<subseteq> (edges g)\<^sup>* `` roots \<and>
     (\<forall>v w. v \<in> set (fresh s s') \<and> (v, w) \<in> edges g \<and> (w, v) \<notin> (edges g)\<^sup>* \<longrightarrow>
            before (snd s') w v)"

lemma emittedI:
  assumes "snd s' = snd s @ new" "distinct new" "set new = set (fst s') - set (fst s)"
    "set (fst s) \<subseteq> set (fst s')" "roots \<subseteq> set (fst s')"
    "set new \<subseteq> (edges g)\<^sup>* `` roots"
    "\<And>v w. v \<in> set new \<Longrightarrow> (v, w) \<in> edges g \<Longrightarrow> (w, v) \<notin> (edges g)\<^sup>* \<Longrightarrow> before (snd s') w v"
  shows "emitted g roots s s'"
proof -
  have f: "fresh s s' = new" by (simp add: fresh_def assms(1))
  show ?thesis
    unfolding emitted_def f
    using assms(1-6) assms(7) by (intro conjI allI impI) blast+
qed

lemma emitted_order: "emitted g roots s s' \<Longrightarrow> snd s' = snd s @ fresh s s'"
  and emitted_distinct: "emitted g roots s s' \<Longrightarrow> distinct (fresh s s')"
  and emitted_fresh: "emitted g roots s s' \<Longrightarrow> set (fresh s s') = set (fst s') - set (fst s)"
  and emitted_mono: "emitted g roots s s' \<Longrightarrow> set (fst s) \<subseteq> set (fst s')"
  and emitted_roots: "emitted g roots s s' \<Longrightarrow> roots \<subseteq> set (fst s')"
  and emitted_reach: "emitted g roots s s' \<Longrightarrow> set (fresh s s') \<subseteq> (edges g)\<^sup>* `` roots"
  unfolding emitted_def by blast+

lemma emitted_before:
  "emitted g roots s s' \<Longrightarrow> v \<in> set (fresh s s') \<Longrightarrow> (v, w) \<in> edges g \<Longrightarrow>
   (w, v) \<notin> (edges g)\<^sup>* \<Longrightarrow> before (snd s') w v"
  unfolding emitted_def by blast

lemma emitted_refl: "emitted g {} s s"
  by (rule emittedI[of _ _ "[]"]) simp_all

lemma emitted_skip: "c \<in> set (fst s) \<Longrightarrow> emitted g {c} s s"
  by (rule emittedI[of _ _ "[]"]) simp_all

lemma grey_reach_emitted:
  assumes em: "emitted g roots s s'" and "grey_reach g p s"
  shows "grey_reach g p s'"
proof -
  note n = emitted_order[OF em] emitted_fresh[OF em] emitted_mono[OF em]
  from assms(2) have sub: "set (snd s) \<subseteq> set (fst s)"
    and gr: "\<And>w. w \<in> set (fst s) \<Longrightarrow> w \<notin> set (snd s) \<Longrightarrow> (w, p) \<in> (edges g)\<^sup>*"
    by (simp_all add: grey_reach_def)
  have eq: "set (snd s') = set (snd s) \<union> (set (fst s') - set (fst s))"
    using n(1) n(2) by (metis set_append)
  have "set (snd s') \<subseteq> set (fst s')" unfolding eq using n(3) sub by auto
  moreover have "(w, p) \<in> (edges g)\<^sup>*" if "w \<in> set (fst s')" "w \<notin> set (snd s')" for w
  proof -
    from that have "w \<in> set (fst s)" "w \<notin> set (snd s)" unfolding eq by auto
    then show ?thesis by (rule gr)
  qed
  ultimately show ?thesis by (simp add: grey_reach_def)
qed

lemma emitted_trans:
  assumes 1: "emitted g r1 s s1" and 2: "emitted g r2 s1 s2"
  shows "emitted g (r1 \<union> r2) s s2"
proof -
  let ?n1 = "fresh s s1" and ?n2 = "fresh s1 s2"
  note n1 = emitted_order[OF 1] emitted_distinct[OF 1] emitted_fresh[OF 1] emitted_mono[OF 1]
    emitted_roots[OF 1] emitted_reach[OF 1]
  note n2 = emitted_order[OF 2] emitted_distinct[OF 2] emitted_fresh[OF 2] emitted_mono[OF 2]
    emitted_roots[OF 2] emitted_reach[OF 2]
  show ?thesis
  proof (rule emittedI[of _ _ "?n1 @ ?n2"])
    show "snd s2 = snd s @ ?n1 @ ?n2" using n1(1) n2(1) by simp
    show "distinct (?n1 @ ?n2)" using n1(2,3) n2(2,3) by auto
    show "set (?n1 @ ?n2) = set (fst s2) - set (fst s)" using n1(3,4) n2(3,4) by auto
    show "set (fst s) \<subseteq> set (fst s2)" using n1(4) n2(4) by auto
    show "r1 \<union> r2 \<subseteq> set (fst s2)" using n1(5) n2(4,5) by auto
    show "set (?n1 @ ?n2) \<subseteq> (edges g)\<^sup>* `` (r1 \<union> r2)" using n1(6) n2(6) by auto
  next
    fix v w assume v: "v \<in> set (?n1 @ ?n2)" and vw: "(v, w) \<in> edges g" "(w, v) \<notin> (edges g)\<^sup>*"
    show "before (snd s2) w v"
    proof (cases "v \<in> set ?n1")
      case True
      from emitted_before[OF 1 True vw] have "before (snd s1 @ ?n2) w v" by (rule before_append)
      then show ?thesis using n2(1) by simp
    next
      case False
      with v have "v \<in> set ?n2" by simp
      from emitted_before[OF 2 this vw] show ?thesis .
    qed
  qed
qed

lemma emitted_node:
  assumes pre: "grey_reach g c s" and new: "c \<notin> set (fst s)"
    and succs: "edges g `` {c} = ds"
    and loop: "emitted g ds (set_add (fst s) c, snd s) s2"
  shows "emitted g {c} s (push c s2)"
proof -
  let ?s0 = "(set_add (fst s) c, snd s)"
  let ?n2 = "fresh ?s0 s2"
  have n2: "snd s2 = snd s @ ?n2" "distinct ?n2"
    "set ?n2 = set (fst s2) - insert c (set (fst s))" "insert c (set (fst s)) \<subseteq> set (fst s2)"
    "ds \<subseteq> set (fst s2)" "set ?n2 \<subseteq> (edges g)\<^sup>* `` ds"
    using emitted_order[OF loop] emitted_distinct[OF loop] emitted_fresh[OF loop]
      emitted_mono[OF loop] emitted_roots[OF loop] emitted_reach[OF loop]
    by simp_all
  from pre have sub: "set (snd s) \<subseteq> set (fst s)"
    and gr: "\<And>w. w \<in> set (fst s) \<Longrightarrow> w \<notin> set (snd s) \<Longrightarrow> (w, c) \<in> (edges g)\<^sup>*"
    by (simp_all add: grey_reach_def)
  have eq: "set (snd s2) = set (snd s) \<union> (set (fst s2) - insert c (set (fst s)))"
    using n2(1) n2(3) by (metis set_append)
  have c_out: "c \<notin> set (snd s2)" unfolding eq using sub new by auto
  show ?thesis
  proof (rule emittedI[of _ _ "?n2 @ [c]"])
    show "snd (push c s2) = snd s @ ?n2 @ [c]" using n2(1) by simp
    show "distinct (?n2 @ [c])" using n2(2,3) by simp
    show "set (?n2 @ [c]) = set (fst (push c s2)) - set (fst s)" using n2(3,4) new by auto
    show "set (fst s) \<subseteq> set (fst (push c s2))" using n2(4) by auto
    show "{c} \<subseteq> set (fst (push c s2))" using n2(4) by auto
    show "set (?n2 @ [c]) \<subseteq> (edges g)\<^sup>* `` {c}"
    proof
      fix x assume "x \<in> set (?n2 @ [c])"
      then consider "x = c" | "x \<in> set ?n2" by auto
      then show "x \<in> (edges g)\<^sup>* `` {c}"
      proof cases
        case 1
        then show ?thesis by simp
      next
        case 2
        with n2(6) obtain d where d: "d \<in> ds" "(d, x) \<in> (edges g)\<^sup>*" by auto
        from d(1) succs have "(c, d) \<in> edges g" by auto
        with d(2) show ?thesis by (auto intro: converse_rtrancl_into_rtrancl)
      qed
    qed
  next
    fix v w assume v: "v \<in> set (?n2 @ [c])" and vw: "(v, w) \<in> edges g" "(w, v) \<notin> (edges g)\<^sup>*"
    show "before (snd (push c s2)) w v"
    proof (cases "v \<in> set ?n2")
      case True
      from emitted_before[OF loop True vw] show ?thesis by (simp add: before_append)
    next
      case False
      with v have vc: "v = c" by simp
      with vw succs have "w \<in> ds" by auto
      with n2(5) have "w \<in> set (fst s2)" by auto
      moreover have "w \<noteq> c" using vw(2) vc by auto
      moreover have "w \<in> set (snd s)" if "w \<in> set (fst s)"
      proof (rule ccontr)
        assume "w \<notin> set (snd s)"
        from gr[OF that this] vw(2) vc show False by simp
      qed
      ultimately have "w \<in> set (snd s2)" unfolding eq by auto
      with c_out show ?thesis by (simp add: vc before_snoc)
    qed
  qed
qed

lemma grey_reach_step:
  assumes pre: "grey_reach g c s" and new: "c \<notin> set (fst s)" and edge: "(c, d) \<in> edges g"
  shows "grey_reach g d (set_add (fst s) c, snd s)"
proof -
  from pre have sub: "set (snd s) \<subseteq> set (fst s)"
    and gr: "\<And>w. w \<in> set (fst s) \<Longrightarrow> w \<notin> set (snd s) \<Longrightarrow> (w, c) \<in> (edges g)\<^sup>*"
    by (simp_all add: grey_reach_def)
  have "(w, d) \<in> (edges g)\<^sup>*" if "w \<in> insert c (set (fst s))" "w \<notin> set (snd s)" for w
  proof (cases "w = c")
    case True
    with edge show ?thesis by auto
  next
    case False
    with that have "(w, c) \<in> (edges g)\<^sup>*" by (intro gr) auto
    then show ?thesis using edge by (rule rtrancl_into_rtrancl)
  qed
  with sub show ?thesis by (auto simp: grey_reach_def)
qed

lemma emitted_node_pair:
  assumes "grey_reach g c (visited, order)" "c \<notin> set visited" "edges g `` {c} = ds"
    "emitted g ds (set_add visited c, order) s2"
  shows "emitted g {c} (visited, order) (push c s2)"
  using emitted_node[of g c "(visited, order)" ds s2] assms by simp

lemma visit_emitted:
  "grey_reach g c s \<Longrightarrow> emitted g {c} s (visit g c s)"
  "(\<forall>d \<in> set ds. grey_reach g d s) \<Longrightarrow> emitted g (set ds) s (visit_loop g ds s)"
proof (induction g c s and g ds s rule: visit_visit_loop.induct)
  case (1 g moduleId visited order)
  show ?case
  proof (cases "set_has visited moduleId")
    case True
    then show ?thesis by (simp add: visit.simps emitted_skip set_has_def)
  next
    case unseen: False
    then have new: "moduleId \<notin> set visited" by (simp add: set_has_def)
    let ?s0 = "(set_add visited moduleId, order)"
    show ?thesis
    proof (cases "map_get (outgoingEdges g) moduleId")
      case None
      have "emitted g {} ?s0 ?s0" by (rule emitted_refl)
      with "1.prems" new edges_None[OF None]
      have "emitted g {moduleId} (visited, order) (push moduleId ?s0)"
        by (rule emitted_node_pair)
      then show ?thesis using unseen None by (simp add: visit.simps)
    next
      case (Some dependencies)
      have "\<forall>d \<in> set dependencies. grey_reach g d ?s0"
      proof
        fix d assume "d \<in> set dependencies"
        then have "(moduleId, d) \<in> edges g" using edges_Some[OF Some] by auto
        from grey_reach_step[OF "1.prems" _ this] new show "grey_reach g d ?s0" by simp
      qed
      from "1.IH"[OF unseen Some this]
      have "emitted g (set dependencies) ?s0 (visit_loop g dependencies ?s0)" .
      with "1.prems" new edges_Some[OF Some]
      have "emitted g {moduleId} (visited, order) (push moduleId (visit_loop g dependencies ?s0))"
        by (rule emitted_node_pair)
      then show ?thesis using unseen Some by (simp add: visit.simps)
    qed
  qed
next
  case (2 g s)
  then show ?case by (simp add: visit_loop.simps emitted_refl)
next
  case (3 g depId rest s)
  let ?s1 = "visit g depId s"
  from "3.prems" have "grey_reach g depId s" by simp
  from "3.IH"(1)[OF this] have e1: "emitted g {depId} s ?s1" .
  have "\<forall>d \<in> set rest. grey_reach g d ?s1"
    using "3.prems" grey_reach_emitted[OF e1] by simp
  from "3.IH"(2)[OF this] have e2: "emitted g (set rest) ?s1 (visit_loop g rest ?s1)" .
  from emitted_trans[OF e1 e2] show ?case by (simp add: visit_loop.simps)
qed

lemma set_map_keys: "set (map_keys m) = {k. map_has m k}"
  by (auto simp: map_keys_def map_has_def map_of_eq_None_iff)

lemma edges_out_of: "((x, y) \<in> edges g) = (y \<in> out_of g x)"
  by (auto simp: edges_def out_of_def split: option.splits)

lemma reach_stays_in_nodes:
  assumes wf: "well_formed g" and "(x, y) \<in> (edges g)\<^sup>*" "map_has (nodes g) x"
  shows "map_has (nodes g) y"
  using assms(2,3)
proof (induction rule: rtrancl_induct)
  case base
  then show ?case .
next
  case (step y z)
  from step(2) have "z \<in> out_of g y" by (simp add: edges_out_of)
  from out_of_node[OF wf this] show ?case by simp
qed

lemma execution_order_emitted:
  "emitted g (set (entryNodes g) \<union> set (map_keys (nodes g))) ([], [])
     (visit_loop g (map_keys (nodes g)) (visit_loop g (entryNodes g) ([], [])))"
proof -
  let ?s1 = "visit_loop g (entryNodes g) ([], [])"
  have g0: "grey_reach g d ([], [])" for d by (simp add: grey_reach_def)
  then have e1: "emitted g (set (entryNodes g)) ([], []) ?s1"
    by (intro visit_emitted(2)) simp
  have "\<forall>d \<in> set (map_keys (nodes g)). grey_reach g d ?s1"
    using grey_reach_emitted[OF e1 g0] by simp
  then have e2: "emitted g (set (map_keys (nodes g))) ?s1 (visit_loop g (map_keys (nodes g)) ?s1)"
    by (rule visit_emitted(2))
  from emitted_trans[OF e1 e2] show ?thesis .
qed

lemma execution_order_fresh:
  "getModuleExecutionOrder g =
     fresh ([], []) (visit_loop g (map_keys (nodes g)) (visit_loop g (entryNodes g) ([], [])))"
  using emitted_order[OF execution_order_emitted[of g]]
  by (simp add: getModuleExecutionOrder_def)

lemma execution_order_nodes:
  assumes wf: "well_formed g"
  shows "set (getModuleExecutionOrder g) = set (map_keys (nodes g))"
proof -
  let ?s2 = "visit_loop g (map_keys (nodes g)) (visit_loop g (entryNodes g) ([], []))"
  let ?roots = "set (entryNodes g) \<union> set (map_keys (nodes g))"
  note em = execution_order_emitted[of g]
  have roots: "?roots = set (map_keys (nodes g))"
    using wf_entry[OF wf] by (auto simp: set_map_keys)
  have all: "set (getModuleExecutionOrder g) = set (fst ?s2)"
    using emitted_fresh[OF em] by (simp add: execution_order_fresh)
  have "set (getModuleExecutionOrder g) \<subseteq> (edges g)\<^sup>* `` ?roots"
    using emitted_reach[OF em] by (simp add: execution_order_fresh)
  also have "\<dots> \<subseteq> set (map_keys (nodes g))"
    unfolding roots using reach_stays_in_nodes[OF wf] by (auto simp: set_map_keys)
  finally have "set (getModuleExecutionOrder g) \<subseteq> set (map_keys (nodes g))" .
  moreover have "set (map_keys (nodes g)) \<subseteq> set (getModuleExecutionOrder g)"
    unfolding all using emitted_roots[OF em] by simp
  ultimately show ?thesis by (rule equalityI)
qed

lemma execution_order_distinct: "distinct (getModuleExecutionOrder g)"
  using emitted_distinct[OF execution_order_emitted[of g]] by (simp add: execution_order_fresh)

lemma execution_order_before:
  assumes wf: "well_formed g" and edge: "(x, y) \<in> edges g" and nocycle: "(y, x) \<notin> (edges g)\<^sup>*"
  shows "before (getModuleExecutionOrder g) y x"
proof -
  from edge have "y \<in> out_of g x" by (simp add: edges_out_of)
  from out_of_node[OF wf this] have "x \<in> set (map_keys (nodes g))" by (simp add: set_map_keys)
  then have "x \<in> set (getModuleExecutionOrder g)" by (simp add: execution_order_nodes[OF wf])
  then have "x \<in> set (fresh ([], [])
      (visit_loop g (map_keys (nodes g)) (visit_loop g (entryNodes g) ([], []))))"
    by (simp add: execution_order_fresh)
  from emitted_before[OF execution_order_emitted this edge nocycle]
  show ?thesis by (simp add: getModuleExecutionOrder_def)
qed

definition dag_calls :: "unit call list" where
  "dag_calls =
     [AddModule ''lib'' no_metadata False 0, AddModule ''main'' no_metadata True 1, AddModule ''utils'' no_metadata False 2,
      AddDependency ''main'' ''utils'', AddDependency ''utils'' ''lib'',
      AddDependency ''main'' ''lib'']"

text \<open>
  Claim C4. For every graph built through the methods, \<open>getModuleExecutionOrder\<close> lists
  every node exactly once, and every dependency edge that lies on no cycle has its target
  (the dependency) ahead of its source (the dependent): so it is in every part of a graph
  that no cycle passes through, and for every edge when the graph is acyclic. Among the
  members of a cycle no order can put every dependency first.
\<close>

theorem execution_order_dependencies_first:
  "distinct (getModuleExecutionOrder (build cs)) \<and>
   set (getModuleExecutionOrder (build cs)) = set (map_keys (nodes (build cs))) \<and>
   (\<forall>x y. (x, y) \<in> edges (build cs) \<and> (y, x) \<notin> (edges (build cs))\<^sup>* \<longrightarrow>
      before (getModuleExecutionOrder (build cs)) y x) \<and>
   ((\<forall>v. (v, v) \<notin> (edges (build cs))\<^sup>+) \<longrightarrow>
      (\<forall>x y. (x, y) \<in> edges (build cs) \<longrightarrow>
         before (getModuleExecutionOrder (build cs)) y x))"
proof (intro conjI allI impI)
  show "distinct (getModuleExecutionOrder (build cs))"
    by (rule execution_order_distinct)
  show "set (getModuleExecutionOrder (build cs)) = set (map_keys (nodes (build cs)))"
    by (rule execution_order_nodes[OF well_formed_build])
next
  fix x y assume "(x, y) \<in> edges (build cs) \<and> (y, x) \<notin> (edges (build cs))\<^sup>*"
  then show "before (getModuleExecutionOrder (build cs)) y x"
    using execution_order_before[OF well_formed_build] by blast
next
  fix x y assume acyclic: "\<forall>v. (v, v) \<notin> (edges (build cs))\<^sup>+"
    and edge: "(x, y) \<in> edges (build cs)"
  have "(y, x) \<notin> (edges (build cs))\<^sup>*"
  proof
    assume "(y, x) \<in> (edges (build cs))\<^sup>*"
    with edge have "(x, x) \<in> (edges (build cs))\<^sup>+" by (rule rtrancl_into_trancl2)
    with acyclic show False by blast
  qed
  with edge show "before (getModuleExecutionOrder (build cs)) y x"
    by (rule execution_order_before[OF well_formed_build])
qed

lemma dag_eval:
  "build dag_calls =
     \<lparr> nodes = [(''lib'', node_object ''lib'' no_metadata 0),
                (''main'', node_object ''main'' no_metadata 1),
                (''utils'', node_object ''utils'' no_metadata 2)],
       incomingEdges = [(''lib'', [''utils'', ''main'']), (''main'', []), (''utils'', [''main''])],
       outgoingEdges = [(''lib'', []), (''main'', [''utils'', ''lib'']), (''utils'', [''lib''])],
       entryNodes = [''main''] \<rparr>"
  by (simp add: dag_calls_def build_def run_def addModule_def addDependency_def
      new_DepGraph_def Let_def map_set_def set_add_def map_has_def map_get_def)

lemma dag_order: "getModuleExecutionOrder (build dag_calls) = [''lib'', ''utils'', ''main'']"
  by (simp add: getModuleExecutionOrder_def dag_eval visit.simps visit_loop.simps map_keys_def
      map_get_def set_has_def set_add_def)

lemma dag_edges:
  "edges (build dag_calls) = {(''main'', ''utils''), (''main'', ''lib''), (''utils'', ''lib'')}"
  by (auto simp: edges_def dag_eval map_get_def split: if_splits)

lemma dag_no_way_back: "(''utils'', ''main'') \<notin> (edges (build dag_calls))\<^sup>*"
proof
  assume "(''utils'', ''main'') \<in> (edges (build dag_calls))\<^sup>*"
  then have "''main'' \<in> {''utils'', ''lib''}"
  proof (induction rule: rtrancl_induct)
    case base
    then show ?case by simp
  next
    case (step y z)
    then show ?case by (auto simp: dag_edges)
  qed
  then show False by simp
qed

lemma dag_acyclic: "(v, v) \<notin> (edges (build dag_calls))\<^sup>+"
proof
  let ?depth = "\<lambda>m. if m = ''main'' then 2 else if m = ''utils'' then 1 else (0::nat)"
  have down: "?depth y < ?depth x" if "(x, y) \<in> (edges (build dag_calls))\<^sup>+" for x y
    using that
  proof (induction rule: trancl_induct)
    case (base y)
    then show ?case by (auto simp: dag_edges)
  next
    case (step y z)
    from step(2) have "?depth z < ?depth y" by (auto simp: dag_edges)
    with step(3) show ?case by simp
  qed
  assume "(v, v) \<in> (edges (build dag_calls))\<^sup>+"
  from down[OF this] show False by simp
qed

theorem execution_order_dependencies_first_witness:
  "getModuleExecutionOrder (build dag_calls) = [''lib'', ''utils'', ''main''] \<and>
   set (map_keys (nodes (build dag_calls))) = {''lib'', ''main'', ''utils''} \<and>
   (''main'', ''utils'') \<in> edges (build dag_calls) \<and>
   (''utils'', ''main'') \<notin> (edges (build dag_calls))\<^sup>* \<and>
   before (getModuleExecutionOrder (build dag_calls)) ''utils'' ''main'' \<and>
   (\<forall>v. (v, v) \<notin> (edges (build dag_calls))\<^sup>+) \<and>
   (''main'', ''lib'') \<in> edges (build dag_calls) \<and>
   before (getModuleExecutionOrder (build dag_calls)) ''lib'' ''main''"
proof -
  have e: "(''main'', ''utils'') \<in> edges (build dag_calls)"
    and e': "(''main'', ''lib'') \<in> edges (build dag_calls)"
    by (simp_all add: dag_edges)
  have acyclic: "\<forall>v. (v, v) \<notin> (edges (build dag_calls))\<^sup>+"
    using dag_acyclic by blast
  note t = execution_order_dependencies_first[of dag_calls]
  from t e dag_no_way_back
  have 1: "before (getModuleExecutionOrder (build dag_calls)) ''utils'' ''main''" by blast
  from t e' acyclic
  have 2: "before (getModuleExecutionOrder (build dag_calls)) ''lib'' ''main''" by blast
  have 3: "set (map_keys (nodes (build dag_calls))) = {''lib'', ''main'', ''utils''}"
    by (simp add: dag_eval map_keys_def)
  from 1 2 3 e e' acyclic dag_no_way_back dag_order show ?thesis by simp
qed

text \<open>
  On the ring of three modules the order is C, B, A: the edge from C to A lies on the cycle
  and A comes after C.
\<close>

lemma cycle3_order: "getModuleExecutionOrder cycle3 = [''C'', ''B'', ''A'']"
  by (simp add: getModuleExecutionOrder_def cycle3_eval visit.simps visit_loop.simps map_keys_def
      map_get_def set_has_def set_add_def)

section \<open>AeroSSR: dependency resolution and the bundle cache\<close>

text \<open>
  What the server takes from the Node runtime is a parameter of the model. The file system
  is a finite table of paths; for each path it gives what \<^verbatim>\<open>fs.readFile\<close> returns at each
  moment, the content or a rejection (\<open>None\<close>), where the moment of a read is the number of
  reads made before it. A path outside the table is rejected. So every \<^verbatim>\<open>await fs.readFile\<close>
  can reject on its own: a file that was read during resolution may be gone when it is read
  again for the bundle. The functions of the \<^verbatim>\<open>path\<close> module and the regular-expression
  engine are parameters too: \<open>import_matches\<close> is the global \<^verbatim>\<open>content.match\<close> with the
  require/import pattern (\<^verbatim>\<open>null\<close> or the list of matches), \<open>quoted_path\<close> is the first
  group of the second \<^verbatim>\<open>match\<close>, and \<open>minifyBundle\<close> is the three \<^verbatim>\<open>replace\<close> passes.
  Every call of \<^verbatim>\<open>fs.readFile\<close> is appended to a log, so that what a call reads can be
  stated. An \<^verbatim>\<open>async\<close> method that throws rejects its promise, and \<^verbatim>\<open>await\<close> rethrows: the
  model returns the error as a value and stops there.
\<close>

record runtime =
  files :: "(string \<times> (nat \<Rightarrow> string option)) list"
  path_join :: "string \<Rightarrow> string \<Rightarrow> string"
  path_relative :: "string \<Rightarrow> string \<Rightarrow> string"
  path_dirname :: "string \<Rightarrow> string"
  path_resolve :: "string \<Rightarrow> string \<Rightarrow> string"
  import_matches :: "string \<Rightarrow> string list option"
  quoted_path :: "string \<Rightarrow> string"
  minifyBundle :: "string \<Rightarrow> string"

datatype server_error =
    ReadFailed string
  | BundleGenerationFailed server_error

record AeroSSR =
  bundleCache :: "(string, string) jsmap"
  templateCache :: "(string, string) jsmap"

definition clearCache :: "AeroSSR \<Rightarrow> AeroSSR" where
  "clearCache srv = srv\<lparr> bundleCache := [], templateCache := [] \<rparr>"

definition readFile :: "runtime \<Rightarrow> string \<Rightarrow> string list \<Rightarrow> (server_error + string) \<times> string list" where
  "readFile rt p log =
     (case map_of (files rt) p of
        None \<Rightarrow> (Inl (ReadFailed p), log @ [p])
      | Some at_moment \<Rightarrow>
          (case at_moment (length log) of
             None \<Rightarrow> (Inl (ReadFailed p), log @ [p])
           | Some content \<Rightarrow> (Inr content, log @ [p])))"

definition endsWith :: "string \<Rightarrow> string \<Rightarrow> bool" where
  "endsWith s suffix = (length suffix \<le> length s \<and> drop (length s - length suffix) s = suffix)"

definition unread :: "runtime \<Rightarrow> string list \<Rightarrow> nat" where
  "unread rt deps = card (set (map_keys (files rt)) - set deps)"

lemma readFile_log: "snd (readFile rt p log) = log @ [p]"
  by (simp add: readFile_def split: option.splits)

lemma readFile_Inr:
  assumes "readFile rt p log = (Inr content, log')"
  shows "p \<in> set (map_keys (files rt))" and "log' = log @ [p]"
proof -
  from assms have "map_of (files rt) p \<noteq> None"
    by (auto simp: readFile_def split: option.splits)
  then have "map_has (files rt) p" by (simp add: map_has_def)
  then show "p \<in> set (map_keys (files rt))" by (simp add: set_map_keys)
  from assms readFile_log[of rt p log] show "log' = log @ [p]" by simp
qed

lemma unread_mono: "set d \<subseteq> set d' \<Longrightarrow> unread rt d' \<le> unread rt d"
  unfolding unread_def by (intro card_mono) auto

lemma unread_add:
  assumes "p \<notin> set d" "readFile rt p log = (Inr content, log')"
  shows "unread rt (set_add d p) < unread rt d"
proof -
  from readFile_Inr(1)[OF assms(2)] assms(1)
  have "set (map_keys (files rt)) - set (set_add d p) \<subset> set (map_keys (files rt)) - set d"
    by auto
  then show ?thesis unfolding unread_def by (intro psubset_card_mono) auto
qed

text \<open>
  \<open>resolveDependencies\<close> recurses through the loop over the matches and carries the
  \<^verbatim>\<open>deps\<close> set along. It only goes on below a path of the table that has just been read
  and was not yet in the set, so the number of such paths bounds the recursion.
\<close>

function resolveDependencies ::
    "runtime \<Rightarrow> string \<Rightarrow> string jsset \<times> string list \<Rightarrow> (server_error + string jsset) \<times> string list"
  and resolve_loop ::
    "runtime \<Rightarrow> string \<Rightarrow> string list \<Rightarrow> string jsset \<times> string list \<Rightarrow>
       (server_error + string jsset) \<times> string list"
where
  "resolveDependencies rt filePath (deps, log) =
     (if set_has deps filePath then (Inr deps, log)
      else
        (case readFile rt filePath log of
           (Inl e, log') \<Rightarrow> (Inl e, log')
         | (Inr content, log') \<Rightarrow>
             (case import_matches rt content of
                None \<Rightarrow> (Inr (set_add deps filePath), log')
              | Some importMatches \<Rightarrow>
                  resolve_loop rt filePath importMatches (set_add deps filePath, log'))))"
| "resolve_loop rt filePath [] (deps, log) = (Inr deps, log)"
| "resolve_loop rt filePath (match # rest) (deps, log) =
     (let depPath = quoted_path rt match;
          fullPath = path_resolve rt (path_dirname rt filePath) depPath
      in if endsWith fullPath ''.js''
         then (case resolveDependencies rt fullPath (deps, log) of
                 (Inl e, log') \<Rightarrow> (Inl e, log')
               | (Inr deps', log') \<Rightarrow> resolve_loop rt filePath rest (deps', log'))
         else resolve_loop rt filePath rest (deps, log))"
  by pat_completeness auto

lemma resolve_dom_grows:
  "resolveDependencies_resolve_loop_dom (Inl (rt, p, s)) \<Longrightarrow>
     resolveDependencies rt p s = (Inr d', l') \<Longrightarrow> set (fst s) \<subseteq> set d'"
  "resolveDependencies_resolve_loop_dom (Inr (rt, p, ms, s)) \<Longrightarrow>
     resolve_loop rt p ms s = (Inr d', l') \<Longrightarrow> set (fst s) \<subseteq> set d'"
proof (induction rt p s and rt p ms s arbitrary: d' l' and d' l'
    rule: resolveDependencies_resolve_loop.pinduct)
  case (1 rt filePath deps log)
  then show ?case
    by (auto simp: resolveDependencies.psimps set_has_def
        split: if_splits option.splits prod.splits sum.splits)
next
  case (2 rt filePath deps log)
  then show ?case by (simp add: resolve_loop.psimps)
next
  case (3 rt filePath match rest deps log)
  then show ?case
    by (fastforce simp: resolve_loop.psimps Let_def
        split: if_splits prod.splits sum.splits)
qed

termination resolveDependencies
proof (relation "inv_image (less_than <*lex*> less_than)
    (\<lambda>x. case x of
       Inl (rt, p, (d, l)) \<Rightarrow> (unread rt d, 0)
     | Inr (rt, p, ms, (d, l)) \<Rightarrow> (unread rt d, Suc (length ms)))", goal_cases)
  case 1
  then show ?case by auto
next
  case (2 rt filePath deps log x y content importMatches)
  from 2(2,3) have "readFile rt filePath log = (Inr content, y)" by simp
  with 2(1) have "unread rt (set_add deps filePath) < unread rt deps"
    by (intro unread_add) (simp_all add: set_has_def)
  then show ?case by simp
next
  case (3 rt filePath match rest deps log depPath fullPath)
  then show ?case by simp
next
  case (4 rt filePath match rest deps log depPath fullPath x y deps')
  from 4(4,5) have "resolveDependencies rt fullPath (deps, log) = (Inr deps', y)" by simp
  from resolve_dom_grows(1)[OF 4(6) this]
  have "set deps \<subseteq> set deps'" by simp
  then have "unread rt deps' \<le> unread rt deps" by (rule unread_mono)
  then show ?case by auto
next
  case (5 rt filePath match rest deps log depPath fullPath)
  then show ?case by simp
qed

declare resolveDependencies.simps [simp del] resolve_loop.simps [simp del]

text \<open>
  The loop of \<open>generateBundle\<close> that reads every resolved file again and appends it to
  the bundle, and the method itself. The test \<^verbatim>\<open>!force && bundleCache.has(cacheKey)\<close>
  followed by \<^verbatim>\<open>bundleCache.get(cacheKey)\<close> is one lookup in the model. The assignment to
  the cache is the last statement of the \<^verbatim>\<open>try\<close> block.
\<close>

fun bundle_loop ::
  "runtime \<Rightarrow> string \<Rightarrow> string list \<Rightarrow> string \<times> string list \<Rightarrow> (server_error + string) \<times> string list"
where
  "bundle_loop rt projectPath [] (bundle, log) = (Inr bundle, log)"
| "bundle_loop rt projectPath (dep # rest) (bundle, log) =
     (case readFile rt dep log of
        (Inl e, log') \<Rightarrow> (Inl e, log')
      | (Inr content, log') \<Rightarrow>
          bundle_loop rt projectPath rest
            (bundle @ [CHR 0x0A] @ ''// File: '' @ path_relative rt projectPath dep @ [CHR 0x0A] @
               content @ [CHR 0x0A],
             log'))"

definition cacheKey :: "string \<Rightarrow> string \<Rightarrow> string" where
  "cacheKey projectPath entryPoint = projectPath @ '':'' @ entryPoint"

definition generateBundle ::
  "runtime \<Rightarrow> AeroSSR \<Rightarrow> string list \<Rightarrow> string \<Rightarrow> string \<Rightarrow> bool \<Rightarrow>
     (server_error + string) \<times> AeroSSR \<times> string list"
where
  "generateBundle rt srv log projectPath entryPoint force =
     (case (if force then None else map_get (bundleCache srv) (cacheKey projectPath entryPoint)) of
        Some cached \<Rightarrow> (Inr cached, srv, log)
      | None \<Rightarrow>
          (case resolveDependencies rt (path_join rt projectPath entryPoint) ([], log) of
             (Inl e, log_r) \<Rightarrow> (Inl (BundleGenerationFailed e), srv, log_r)
           | (Inr dependencies, log_r) \<Rightarrow>
               (case bundle_loop rt projectPath dependencies ([], log_r) of
                  (Inl e, log2) \<Rightarrow> (Inl (BundleGenerationFailed e), srv, log2)
                | (Inr bundle, log2) \<Rightarrow>
                    (Inr (minifyBundle rt bundle),
                     srv\<lparr> bundleCache :=
                            map_set (bundleCache srv) (cacheKey projectPath entryPoint)
                              (minifyBundle rt bundle) \<rparr>,
                     log2))))"

lemma generateBundle_success_cached:
  assumes "generateBundle rt srv log projectPath entryPoint force = (Inr bundled, srv', log')"
  shows "map_get (bundleCache srv') (cacheKey projectPath entryPoint) = Some bundled"
  using assms
  by (auto simp: generateBundle_def split: if_splits option.splits prod.splits sum.splits)

lemma generateBundle_hit:
  assumes "map_get (bundleCache srv) (cacheKey projectPath entryPoint) = Some cached"
  shows "generateBundle rt srv log projectPath entryPoint False = (Inr cached, srv, log)"
  using assms by (simp add: generateBundle_def)

text \<open>
  Claim C2. When the cache has the key of the request and \<open>force\<close> is false,
  \<open>generateBundle\<close> returns the cached value and leaves the server and the read log as they
  were: nothing is read or resolved. Hence a call that returned a bundle, followed by the same
  call, returns the same value again without a read, whatever has happened to the files.
\<close>

theorem generateBundle_cache_hit:
  "(map_has (bundleCache srv) (cacheKey projectPath entryPoint) \<longrightarrow>
      (\<exists>cached. map_get (bundleCache srv) (cacheKey projectPath entryPoint) = Some cached \<and>
         generateBundle rt srv log projectPath entryPoint False = (Inr cached, srv, log))) \<and>
   (generateBundle rt srv log projectPath entryPoint False = (Inr bundled, srv', log') \<longrightarrow>
      generateBundle rt' srv' log' projectPath entryPoint False = (Inr bundled, srv', log'))"
proof (intro conjI impI)
  assume "map_has (bundleCache srv) (cacheKey projectPath entryPoint)"
  then obtain cached where c: "map_get (bundleCache srv) (cacheKey projectPath entryPoint) = Some cached"
    by (auto dest: has_Some)
  from generateBundle_hit[OF c] c
  show "\<exists>cached. map_get (bundleCache srv) (cacheKey projectPath entryPoint) = Some cached \<and>
         generateBundle rt srv log projectPath entryPoint False = (Inr cached, srv, log)"
    by blast
next
  assume "generateBundle rt srv log projectPath entryPoint False = (Inr bundled, srv', log')"
  from generateBundle_hit[OF generateBundle_success_cached[OF this]]
  show "generateBundle rt' srv' log' projectPath entryPoint False = (Inr bundled, srv', log')" .
qed

text \<open>
  Claim C3. Every failure of \<open>generateBundle\<close> is the wrapped error and leaves the server,
  the bundle cache included, exactly as it was before the call, whether the failure comes
  from the resolution or from reading a resolved file for the bundle (minification cannot
  fail); and when a call has changed the cache it has returned the bundle it stored, so the
  cache is written only after the whole pipeline has succeeded.
\<close>

theorem generateBundle_failure_keeps_cache:
  "(generateBundle rt srv log projectPath entryPoint force = (Inl e, srv', log') \<longrightarrow>
      (\<exists>cause. e = BundleGenerationFailed cause) \<and> srv' = srv) \<and>
   ((force \<or> \<not> map_has (bundleCache srv) (cacheKey projectPath entryPoint)) \<and>
    resolveDependencies rt (path_join rt projectPath entryPoint) ([], log) = (Inl cause, log_r) \<longrightarrow>
      generateBundle rt srv log projectPath entryPoint force =
        (Inl (BundleGenerationFailed cause), srv, log_r)) \<and>
   ((force \<or> \<not> map_has (bundleCache srv) (cacheKey projectPath entryPoint)) \<and>
    resolveDependencies rt (path_join rt projectPath entryPoint) ([], log) = (Inr deps, log_r) \<and>
    bundle_loop rt projectPath deps ([], log_r) = (Inl cause, log_b) \<longrightarrow>
      generateBundle rt srv log projectPath entryPoint force =
        (Inl (BundleGenerationFailed cause), srv, log_b)) \<and>
   (generateBundle rt srv log projectPath entryPoint force = (r, srv', log') \<and>
    bundleCache srv' \<noteq> bundleCache srv \<longrightarrow>
      (\<exists>bundled. r = Inr bundled \<and>
         bundleCache srv' = map_set (bundleCache srv) (cacheKey projectPath entryPoint) bundled))"
proof (intro conjI impI)
  assume "generateBundle rt srv log projectPath entryPoint force = (Inl e, srv', log')"
  then show "\<exists>cause. e = BundleGenerationFailed cause" "srv' = srv"
    by (auto simp: generateBundle_def split: if_splits option.splits prod.splits sum.splits)
next
  assume "(force \<or> \<not> map_has (bundleCache srv) (cacheKey projectPath entryPoint)) \<and>
    resolveDependencies rt (path_join rt projectPath entryPoint) ([], log) = (Inl cause, log_r)"
  then show "generateBundle rt srv log projectPath entryPoint force =
        (Inl (BundleGenerationFailed cause), srv, log_r)"
    by (auto simp: generateBundle_def map_has_get)
next
  assume "(force \<or> \<not> map_has (bundleCache srv) (cacheKey projectPath entryPoint)) \<and>
    resolveDependencies rt (path_join rt projectPath entryPoint) ([], log) = (Inr deps, log_r) \<and>
    bundle_loop rt projectPath deps ([], log_r) = (Inl cause, log_b)"
  then show "generateBundle rt srv log projectPath entryPoint force =
        (Inl (BundleGenerationFailed cause), srv, log_b)"
    by (auto simp: generateBundle_def map_has_get)
next
  assume "generateBundle rt srv log projectPath entryPoint force = (r, srv', log') \<and>
    bundleCache srv' \<noteq> bundleCache srv"
  then show "\<exists>bundled. r = Inr bundled \<and>
         bundleCache srv' = map_set (bundleCache srv) (cacheKey projectPath entryPoint) bundled"
    by (auto simp: generateBundle_def split: if_splits option.splits prod.splits sum.splits)
qed

subsection \<open>What a resolution returns\<close>

lemma resolve_seen: "set_has deps filePath \<Longrightarrow> resolveDependencies rt filePath (deps, log) = (Inr deps, log)"
  by (simp add: resolveDependencies.simps)

lemma resolve_bounds:
  "resolveDependencies rt p s = (Inr d', l') \<Longrightarrow>
     set (fst s) \<subseteq> set d' \<and> p \<in> set d' \<and> set d' \<subseteq> set (fst s) \<union> set (map_keys (files rt)) \<and>
     (distinct (fst s) \<longrightarrow> distinct d')"
  "resolve_loop rt p ms s = (Inr d', l') \<Longrightarrow>
     set (fst s) \<subseteq> set d' \<and> set d' \<subseteq> set (fst s) \<union> set (map_keys (files rt)) \<and>
     (distinct (fst s) \<longrightarrow> distinct d')"
proof (induction rt p s and rt p ms s arbitrary: d' l' and d' l'
    rule: resolveDependencies_resolve_loop.induct)
  case (1 rt filePath deps log)
  show ?case
  proof (cases "set_has deps filePath")
    case True
    with 1(2) show ?thesis by (simp add: resolveDependencies.simps set_has_def)
  next
    case unseen: False
    obtain r l1 where rd: "readFile rt filePath log = (r, l1)"
      by (cases "readFile rt filePath log")
    show ?thesis
    proof (cases r)
      case (Inl e)
      with unseen rd 1(2) show ?thesis by (simp add: resolveDependencies.simps)
    next
      case (Inr content)
      with rd have rd': "readFile rt filePath log = (Inr content, l1)" by simp
      from readFile_Inr(1)[OF rd'] have inf: "filePath \<in> set (map_keys (files rt))" .
      show ?thesis
      proof (cases "import_matches rt content")
        case None
        with unseen rd' 1(2) inf show ?thesis
          by (auto simp: resolveDependencies.simps)
      next
        case (Some importMatches)
        with unseen rd' 1(2)
        have "resolve_loop rt filePath importMatches (set_add deps filePath, l1) = (Inr d', l')"
          by (simp add: resolveDependencies.simps)
        from 1(1)[OF unseen rd[symmetric] Inr Some this] inf
        show ?thesis by auto
      qed
    qed
  qed
next
  case (2 rt filePath deps log)
  then show ?case by (simp add: resolve_loop.simps)
next
  case (3 rt filePath match rest deps log)
  let ?full = "path_resolve rt (path_dirname rt filePath) (quoted_path rt match)"
  show ?case
  proof (cases "endsWith ?full ''.js''")
    case False
    with 3(4) have "resolve_loop rt filePath rest (deps, log) = (Inr d', l')"
      by (simp add: resolve_loop.simps)
    from 3(3)[OF refl refl False this] show ?thesis .
  next
    case js: True
    obtain r l1 where res: "resolveDependencies rt ?full (deps, log) = (r, l1)"
      by (cases "resolveDependencies rt ?full (deps, log)")
    show ?thesis
    proof (cases r)
      case (Inl e)
      with js res 3(4) show ?thesis by (simp add: resolve_loop.simps)
    next
      case (Inr d1)
      with js res 3(4) have loop: "resolve_loop rt filePath rest (d1, l1) = (Inr d', l')"
        by (simp add: resolve_loop.simps)
      from res Inr have res': "resolveDependencies rt ?full (deps, log) = (Inr d1, l1)" by simp
      from 3(1)[OF refl refl js res'] 3(2)[OF refl refl js res[symmetric] Inr loop]
      show ?thesis by auto
    qed
  qed
qed

text \<open>
  Two files that import each other. When the import of the second file resolves to the very
  string that was passed as the entry, the result is the two paths, each read once. When the
  entry was passed under another name than the one its import resolves to (a path relative
  to the working directory, where \<^verbatim>\<open>path.resolve\<close> gives absolute paths), the entry is not
  recognised: it is read again under the resolved name and the result has three paths.
\<close>

lemma resolve_two_file_cycle:
  assumes "entry \<noteq> a"
    and "readFile rt entry log = (Inr c_entry, log @ [entry])"
    and "readFile rt a (log @ [entry]) = (Inr c_a, log @ [entry, a])"
    and "import_matches rt c_entry = Some [imp_a]"
    and "path_resolve rt (path_dirname rt entry) (quoted_path rt imp_a) = a"
    and "import_matches rt c_a = Some [imp_entry]"
    and "path_resolve rt (path_dirname rt a) (quoted_path rt imp_entry) = entry"
    and "endsWith entry ''.js''" "endsWith a ''.js''"
  shows "resolveDependencies rt entry ([], log) = (Inr [entry, a], log @ [entry, a])"
proof -
  from assms(1) have ne: "a \<noteq> entry" by simp
  have second: "resolveDependencies rt a ([entry], log @ [entry]) = (Inr [entry, a], log @ [entry, a])"
    using assms ne
    by (simp add: resolveDependencies.simps resolve_loop.simps set_has_def set_add_def Let_def)
  show ?thesis
    using assms second
    by (simp add: resolveDependencies.simps resolve_loop.simps set_has_def set_add_def Let_def)
qed

lemma resolve_renamed_entry:
  assumes "entry \<noteq> a" "entry \<noteq> main" "a \<noteq> main"
    and "readFile rt entry log = (Inr c_entry, log @ [entry])"
    and "readFile rt a (log @ [entry]) = (Inr c_a, log @ [entry, a])"
    and "readFile rt main (log @ [entry, a]) = (Inr c_main, log @ [entry, a, main])"
    and "import_matches rt c_entry = Some [imp_a]"
    and "path_resolve rt (path_dirname rt entry) (quoted_path rt imp_a) = a"
    and "import_matches rt c_a = Some [imp_main]"
    and "path_resolve rt (path_dirname rt a) (quoted_path rt imp_main) = main"
    and "import_matches rt c_main = Some [imp_back]"
    and "path_resolve rt (path_dirname rt main) (quoted_path rt imp_back) = a"
    and "endsWith main ''.js''" "endsWith a ''.js''"
  shows "resolveDependencies rt entry ([], log) =
           (Inr [entry, a, main], log @ [entry, a, main])"
proof -
  from assms(1-3) have ne: "a \<noteq> entry" "main \<noteq> entry" "main \<noteq> a" by auto
  have third: "resolveDependencies rt main ([entry, a], log @ [entry, a]) =
      (Inr [entry, a, main], log @ [entry, a, main])"
    using assms ne
    by (simp add: resolveDependencies.simps resolve_loop.simps set_has_def set_add_def Let_def)
  have second: "resolveDependencies rt a ([entry], log @ [entry]) =
      (Inr [entry, a, main], log @ [entry, a, main])"
    using assms ne third
    by (simp add: resolveDependencies.simps resolve_loop.simps set_has_def set_add_def Let_def)
  show ?thesis
    using assms second
    by (simp add: resolveDependencies.simps resolve_loop.simps set_has_def set_add_def Let_def)
qed

subsection \<open>An example runtime\<close>

text \<open>
  Two files in \<^verbatim>\<open>/app/src\<close> that import each other, with \<^verbatim>\<open>/app\<close> as the working
  directory, so that \<^verbatim>\<open>main.js\<close> can also be read as \<^verbatim>\<open>src/main.js\<close>. The functions of
  the \<^verbatim>\<open>path\<close> module are given for paths of the shapes that occur here: \<^verbatim>\<open>path.join\<close>
  drops a leading \<^verbatim>\<open>./\<close>, \<^verbatim>\<open>path.dirname\<close> drops the last component, \<^verbatim>\<open>path.resolve\<close>
  puts the working directory before a relative directory, and \<^verbatim>\<open>path.relative\<close> of a file
  of the project directory is its last component. The scanner finds the one import of each
  file. In \<open>flaky_rt\<close> the second file is deleted after three reads.
\<close>

definition main_import :: string where
  "main_import = ''require('' @ [CHR 0x27] @ ''./a.js'' @ [CHR 0x27] @ '')''"

definition a_import :: string where
  "a_import = ''require('' @ [CHR 0x27] @ ''./main.js'' @ [CHR 0x27] @ '')''"

definition main_src :: string where
  "main_src = main_import @ '';''"

definition a_src :: string where
  "a_src = a_import @ '';''"

definition node_rt :: runtime where
  "node_rt =
     \<lparr> files = [(''/app/src/main.js'', \<lambda>moment. Some main_src),
                (''/app/src/a.js'', \<lambda>moment. Some a_src),
                (''src/main.js'', \<lambda>moment. Some main_src)],
       path_join = (\<lambda>dir name. (if take 2 dir = ''./'' then drop 2 dir else dir) @ ''/'' @ name),
       path_relative = (\<lambda>from to. rev (takeWhile (\<lambda>c. c \<noteq> CHR ''/'') (rev to))),
       path_dirname = (\<lambda>p. rev (drop 1 (dropWhile (\<lambda>c. c \<noteq> CHR ''/'') (rev p)))),
       path_resolve = (\<lambda>dir rel. (if take 1 dir = ''/'' then dir else ''/app/'' @ dir) @ drop 1 rel),
       import_matches = (\<lambda>content. if content = main_src then Some [main_import]
                                     else if content = a_src then Some [a_import] else None),
       quoted_path = (\<lambda>m. take (length m - 11) (drop 9 m)),
       minifyBundle = (\<lambda>code. code) \<rparr>"

definition flaky_rt :: runtime where
  "flaky_rt =
     node_rt\<lparr> files := [(''/app/src/main.js'', \<lambda>moment. Some main_src),
                         (''/app/src/a.js'', \<lambda>moment. if moment < 3 then Some a_src else None)] \<rparr>"

definition new_AeroSSR :: AeroSSR where
  "new_AeroSSR = \<lparr> bundleCache = [], templateCache = [] \<rparr>"

lemma node_rt_reads:
  "readFile node_rt ''/app/src/main.js'' log = (Inr main_src, log @ [''/app/src/main.js''])"
  "readFile node_rt ''/app/src/a.js'' log = (Inr a_src, log @ [''/app/src/a.js''])"
  "readFile node_rt ''src/main.js'' log = (Inr main_src, log @ [''src/main.js''])"
  by (simp_all add: readFile_def node_rt_def)

lemma node_rt_scan:
  "import_matches node_rt main_src = Some [main_import]"
  "import_matches node_rt a_src = Some [a_import]"
  "import_matches flaky_rt main_src = Some [main_import]"
  "import_matches flaky_rt a_src = Some [a_import]"
  by (simp_all add: node_rt_def flaky_rt_def main_src_def a_src_def main_import_def a_import_def)

lemma node_rt_paths:
  "path_join node_rt ''/app/src'' ''main.js'' = ''/app/src/main.js''"
  "path_join node_rt ''./src'' ''main.js'' = ''src/main.js''"
  "path_resolve node_rt (path_dirname node_rt ''/app/src/main.js'')
     (quoted_path node_rt (main_import)) = ''/app/src/a.js''"
  "path_resolve node_rt (path_dirname node_rt ''src/main.js'')
     (quoted_path node_rt (main_import)) = ''/app/src/a.js''"
  "path_resolve node_rt (path_dirname node_rt ''/app/src/a.js'')
     (quoted_path node_rt (a_import)) = ''/app/src/main.js''"
  "endsWith ''/app/src/main.js'' ''.js''" "endsWith ''/app/src/a.js'' ''.js''"
  by (simp_all add: node_rt_def main_import_def a_import_def endsWith_def)

lemma flaky_rt_paths:
  "path_join flaky_rt ''/app/src'' ''main.js'' = ''/app/src/main.js''"
  "path_resolve flaky_rt (path_dirname flaky_rt ''/app/src/main.js'')
     (quoted_path flaky_rt (main_import)) = ''/app/src/a.js''"
  "path_resolve flaky_rt (path_dirname flaky_rt ''/app/src/a.js'')
     (quoted_path flaky_rt (a_import)) = ''/app/src/main.js''"
  by (simp_all add: node_rt_def flaky_rt_def main_import_def a_import_def)

lemma node_rt_resolve:
  "resolveDependencies node_rt ''/app/src/main.js'' ([], log) =
     (Inr [''/app/src/main.js'', ''/app/src/a.js''],
      log @ [''/app/src/main.js'', ''/app/src/a.js''])"
  by (rule resolve_two_file_cycle[where c_entry = main_src and c_a = a_src
        and imp_a = main_import and imp_entry = a_import])
     (simp_all add: node_rt_reads node_rt_scan node_rt_paths)

definition cyclic_bundle :: string where
  "cyclic_bundle =
     [CHR 0x0A] @ ''// File: main.js'' @ [CHR 0x0A] @ main_src @ [CHR 0x0A] @
     [CHR 0x0A] @ ''// File: a.js'' @ [CHR 0x0A] @ a_src @ [CHR 0x0A]"

definition four_reads :: "string list" where
  "four_reads = [''/app/src/main.js'', ''/app/src/a.js'', ''/app/src/main.js'', ''/app/src/a.js'']"

lemma node_rt_bundle_loop:
  "bundle_loop node_rt ''/app/src'' [''/app/src/main.js'', ''/app/src/a.js'']
     ([], [''/app/src/main.js'', ''/app/src/a.js'']) = (Inr cyclic_bundle, four_reads)"
  by (simp add: node_rt_reads cyclic_bundle_def four_reads_def) (simp add: node_rt_def)

definition cached_srv :: AeroSSR where
  "cached_srv = new_AeroSSR\<lparr> bundleCache := [(''/app/src:main.js'', cyclic_bundle)] \<rparr>"

lemma node_rt_first_call:
  "generateBundle node_rt new_AeroSSR [] ''/app/src'' ''main.js'' False =
     (Inr cyclic_bundle, cached_srv, four_reads)"
proof -
  have m: "minifyBundle node_rt = (\<lambda>code. code)" by (simp add: node_rt_def)
  show ?thesis
    unfolding generateBundle_def node_rt_paths(1)
    by (simp add: node_rt_resolve[of "[]", simplified] node_rt_bundle_loop m new_AeroSSR_def
        cached_srv_def cacheKey_def map_set_def map_get_def del: bundle_loop.simps)
qed

theorem generateBundle_cache_hit_witness:
  "generateBundle node_rt new_AeroSSR [] ''/app/src'' ''main.js'' False =
     (Inr cyclic_bundle, cached_srv, four_reads) \<and>
   generateBundle (node_rt\<lparr> files := [] \<rparr>) cached_srv four_reads ''/app/src'' ''main.js'' False =
     (Inr cyclic_bundle, cached_srv, four_reads) \<and>
   map_has (bundleCache cached_srv) (cacheKey ''/app/src'' ''main.js'') \<and>
   generateBundle node_rt cached_srv [] ''/app/src'' ''main.js'' False =
     (Inr cyclic_bundle, cached_srv, [])"
proof -
  note first = node_rt_first_call
  have has: "map_has (bundleCache cached_srv) (cacheKey ''/app/src'' ''main.js'')"
    by (simp add: cached_srv_def cacheKey_def map_has_def)
  have get: "map_get (bundleCache cached_srv) (cacheKey ''/app/src'' ''main.js'') = Some cyclic_bundle"
    by (simp add: cached_srv_def cacheKey_def map_get_def)
  from generateBundle_cache_hit[where rt = node_rt and srv = new_AeroSSR and log = "[]"
      and projectPath = "''/app/src''" and entryPoint = "''main.js''" and bundled = cyclic_bundle
      and srv' = cached_srv and log' = four_reads and rt' = "node_rt\<lparr> files := [] \<rparr>"] first
  have second: "generateBundle (node_rt\<lparr> files := [] \<rparr>) cached_srv four_reads ''/app/src'' ''main.js'' False =
      (Inr cyclic_bundle, cached_srv, four_reads)"
    by blast
  from generateBundle_cache_hit[where rt = node_rt and srv = cached_srv and log = "[]"
      and projectPath = "''/app/src''" and entryPoint = "''main.js''"] has get
  have third: "generateBundle node_rt cached_srv [] ''/app/src'' ''main.js'' False =
      (Inr cyclic_bundle, cached_srv, [])"
    by auto
  from first second has third show ?thesis by blast
qed

text \<open>
  Two failing calls that rebuild a cached bundle with \<open>force\<close>: in the first the entry cannot
  be read and the resolution fails; in the second the resolution succeeds and the second
  file is gone when it is read for the bundle. Both leave the cached entry in place.
\<close>

lemma flaky_rt_reads:
  "readFile flaky_rt ''/app/src/main.js'' log = (Inr main_src, log @ [''/app/src/main.js''])"
  "length log < 3 \<Longrightarrow>
     readFile flaky_rt ''/app/src/a.js'' log = (Inr a_src, log @ [''/app/src/a.js''])"
  "\<not> length log < 3 \<Longrightarrow>
     readFile flaky_rt ''/app/src/a.js'' log =
       (Inl (ReadFailed ''/app/src/a.js''), log @ [''/app/src/a.js''])"
  by (simp_all add: readFile_def flaky_rt_def)

lemma flaky_rt_resolve:
  "resolveDependencies flaky_rt ''/app/src/main.js'' ([], []) =
     (Inr [''/app/src/main.js'', ''/app/src/a.js''], [''/app/src/main.js'', ''/app/src/a.js''])"
  using resolve_two_file_cycle[where rt = flaky_rt and entry = "''/app/src/main.js''"
      and a = "''/app/src/a.js''" and c_entry = main_src and c_a = a_src and log = "[]"
      and imp_a = main_import
      and imp_entry = a_import]
  by (simp add: flaky_rt_reads node_rt_scan flaky_rt_paths node_rt_paths)

lemma flaky_rt_bundle_loop:
  "bundle_loop flaky_rt ''/app/src'' [''/app/src/main.js'', ''/app/src/a.js'']
     ([], [''/app/src/main.js'', ''/app/src/a.js'']) =
   (Inl (ReadFailed ''/app/src/a.js''), four_reads)"
  by (simp add: flaky_rt_reads four_reads_def)

theorem generateBundle_failure_keeps_cache_witness:
  "resolveDependencies (node_rt\<lparr> files := [] \<rparr>)
       (path_join (node_rt\<lparr> files := [] \<rparr>) ''/app/src'' ''main.js'') ([], []) =
     (Inl (ReadFailed ''/app/src/main.js''), [''/app/src/main.js'']) \<and>
   generateBundle (node_rt\<lparr> files := [] \<rparr>) cached_srv [] ''/app/src'' ''main.js'' True =
     (Inl (BundleGenerationFailed (ReadFailed ''/app/src/main.js'')), cached_srv,
      [''/app/src/main.js'']) \<and>
   resolveDependencies flaky_rt (path_join flaky_rt ''/app/src'' ''main.js'') ([], []) =
     (Inr [''/app/src/main.js'', ''/app/src/a.js''], [''/app/src/main.js'', ''/app/src/a.js'']) \<and>
   bundle_loop flaky_rt ''/app/src'' [''/app/src/main.js'', ''/app/src/a.js'']
       ([], [''/app/src/main.js'', ''/app/src/a.js'']) =
     (Inl (ReadFailed ''/app/src/a.js''), four_reads) \<and>
   generateBundle flaky_rt cached_srv [] ''/app/src'' ''main.js'' True =
     (Inl (BundleGenerationFailed (ReadFailed ''/app/src/a.js'')), cached_srv, four_reads) \<and>
   map_get (bundleCache cached_srv) (cacheKey ''/app/src'' ''main.js'') = Some cyclic_bundle"
proof -
  let ?gone = "node_rt\<lparr> files := [] \<rparr>"
  have r: "resolveDependencies ?gone (path_join ?gone ''/app/src'' ''main.js'') ([], []) =
      (Inl (ReadFailed ''/app/src/main.js''), [''/app/src/main.js''])"
    by (simp add: resolveDependencies.simps readFile_def set_has_def node_rt_def)
  have get: "map_get (bundleCache cached_srv) (cacheKey ''/app/src'' ''main.js'') = Some cyclic_bundle"
    by (simp add: cached_srv_def cacheKey_def map_get_def)
  from generateBundle_failure_keeps_cache[where rt = ?gone and srv = cached_srv and log = "[]"
      and projectPath = "''/app/src''" and entryPoint = "''main.js''" and force = True
      and cause = "ReadFailed ''/app/src/main.js''" and log_r = "[''/app/src/main.js'']"] r
  have 1: "generateBundle ?gone cached_srv [] ''/app/src'' ''main.js'' True =
     (Inl (BundleGenerationFailed (ReadFailed ''/app/src/main.js'')), cached_srv,
      [''/app/src/main.js''])"
    by blast
  have res: "resolveDependencies flaky_rt (path_join flaky_rt ''/app/src'' ''main.js'') ([], []) =
     (Inr [''/app/src/main.js'', ''/app/src/a.js''], [''/app/src/main.js'', ''/app/src/a.js''])"
    by (simp add: flaky_rt_paths flaky_rt_resolve)
  note loop = flaky_rt_bundle_loop
  from generateBundle_failure_keeps_cache[where rt = flaky_rt and srv = cached_srv and log = "[]"
      and projectPath = "''/app/src''" and entryPoint = "''main.js''" and force = True
      and cause = "ReadFailed ''/app/src/a.js''"
      and deps = "[''/app/src/main.js'', ''/app/src/a.js'']"
      and log_r = "[''/app/src/main.js'', ''/app/src/a.js'']" and log_b = four_reads] res loop
  have 2: "generateBundle flaky_rt cached_srv [] ''/app/src'' ''main.js'' True =
     (Inl (BundleGenerationFailed (ReadFailed ''/app/src/a.js'')), cached_srv, four_reads)"
    by blast
  from r 1 res loop 2 get show ?thesis by blast
qed

text \<open>
  Claim C9. \<open>resolveDependencies\<close> returns on every input (it is a total function, by the
  termination proof above: a path already in the set is returned at once), but what it
  returns for the two files that import each other is not always the two files. With the
  default project directory \<^verbatim>\<open>./src\<close>, \<open>generateBundle\<close> passes the entry as
  \<^verbatim>\<open>src/main.js\<close> (\<^verbatim>\<open>path.join\<close>), while the import of \<^verbatim>\<open>a.js\<close> resolves to
  \<^verbatim>\<open>/app/src/main.js\<close> (\<^verbatim>\<open>path.resolve\<close>), which is not in the set. The entry is read a
  second time and the result has three paths; the bundle has \<^verbatim>\<open>main.js\<close> twice.
\<close>

theorem resolveDependencies_entry_listed_twice:
  "path_join node_rt ''./src'' ''main.js'' = ''src/main.js'' \<and>
   resolveDependencies node_rt ''src/main.js'' ([], []) =
     (Inr [''src/main.js'', ''/app/src/a.js'', ''/app/src/main.js''],
      [''src/main.js'', ''/app/src/a.js'', ''/app/src/main.js'']) \<and>
   resolveDependencies node_rt ''/app/src/main.js'' ([], []) =
     (Inr [''/app/src/main.js'', ''/app/src/a.js''], [''/app/src/main.js'', ''/app/src/a.js''])"
proof -
  have "resolveDependencies node_rt ''src/main.js'' ([], []) =
     (Inr [''src/main.js'', ''/app/src/a.js'', ''/app/src/main.js''],
      [] @ [''src/main.js'', ''/app/src/a.js'', ''/app/src/main.js''])"
    by (rule resolve_renamed_entry[where c_entry = main_src and c_a = a_src and c_main = main_src
          and imp_a = main_import and imp_main = a_import and imp_back = main_import])
       (simp_all add: node_rt_reads node_rt_scan node_rt_paths)
  with node_rt_resolve[of "[]"] node_rt_paths(2) show ?thesis by simp
qed

lemma node_rt_bundle_twice:
  "generateBundle node_rt new_AeroSSR [] ''./src'' ''main.js'' False =
     (Inr ([CHR 0x0A] @ ''// File: main.js'' @ [CHR 0x0A] @ main_src @ [CHR 0x0A] @
           [CHR 0x0A] @ ''// File: a.js'' @ [CHR 0x0A] @ a_src @ [CHR 0x0A] @
           [CHR 0x0A] @ ''// File: main.js'' @ [CHR 0x0A] @ main_src @ [CHR 0x0A]),
      new_AeroSSR\<lparr> bundleCache :=
        [(''./src:main.js'',
          [CHR 0x0A] @ ''// File: main.js'' @ [CHR 0x0A] @ main_src @ [CHR 0x0A] @
          [CHR 0x0A] @ ''// File: a.js'' @ [CHR 0x0A] @ a_src @ [CHR 0x0A] @
          [CHR 0x0A] @ ''// File: main.js'' @ [CHR 0x0A] @ main_src @ [CHR 0x0A])] \<rparr>,
      [''src/main.js'', ''/app/src/a.js'', ''/app/src/main.js'',
       ''src/main.js'', ''/app/src/a.js'', ''/app/src/main.js''])"
proof -
  have res: "resolveDependencies node_rt ''src/main.js'' ([], []) =
     (Inr [''src/main.js'', ''/app/src/a.js'', ''/app/src/main.js''],
      [''src/main.js'', ''/app/src/a.js'', ''/app/src/main.js''])"
    using resolve_renamed_entry[where rt = node_rt and entry = "''src/main.js''"
        and a = "''/app/src/a.js''" and main = "''/app/src/main.js''" and log = "[]"
        and c_entry = main_src and c_a = a_src and c_main = main_src
        and imp_a = main_import
        and imp_main = a_import
        and imp_back = main_import]
    by (simp add: node_rt_reads node_rt_scan node_rt_paths)
  have loop: "bundle_loop node_rt ''./src'' [''src/main.js'', ''/app/src/a.js'', ''/app/src/main.js'']
      ([], [''src/main.js'', ''/app/src/a.js'', ''/app/src/main.js'']) =
     (Inr ([CHR 0x0A] @ ''// File: main.js'' @ [CHR 0x0A] @ main_src @ [CHR 0x0A] @
           [CHR 0x0A] @ ''// File: a.js'' @ [CHR 0x0A] @ a_src @ [CHR 0x0A] @
           [CHR 0x0A] @ ''// File: main.js'' @ [CHR 0x0A] @ main_src @ [CHR 0x0A]),
      [''src/main.js'', ''/app/src/a.js'', ''/app/src/main.js'',
       ''src/main.js'', ''/app/src/a.js'', ''/app/src/main.js''])"
    by (simp add: node_rt_reads) (simp add: node_rt_def)
  have m: "minifyBundle node_rt = (\<lambda>code. code)" by (simp add: node_rt_def)
  show ?thesis
    unfolding generateBundle_def node_rt_paths(2)
    by (simp add: res loop m new_AeroSSR_def cacheKey_def map_set_def map_get_def
        del: bundle_loop.simps)
qed

end
